theory Spec2Isabelle
  imports Complex_Main
begin

section \<open>Marker detector: data model and errors\<close>

text \<open>
  The development embeds \<^verbatim>\<open>marker_detector.py\<close>: the line generator, the distance
  function and the part of \<^verbatim>\<open>detectAndLabelMarkers\<close> that follows the calls into the
  image library.  Points are pairs of integers (pixel coordinates, \<open>(x, y)\<close>).

  The vertices the image library returns are 32-bit integers and the corner resolver
  computes on them with wrap-around.  The line generator is modelled on Python's unbounded
  integers, as its docstring declares its arguments; on pixel coordinates its arithmetic
  stays far below \<open>2\<^sup>3\<^sup>1\<close>.

  Python floats are idealised as real numbers.  The program compares a quotient of two
  pixel distances with \<open>1\<close> and a distance with \<open>80\<close>, and truncates products such as
  \<open>n * 0.85\<close> and \<open>n / 10 * 1.95\<close> for a path length \<open>n\<close>; on pixel-sized integers these
  float computations give the results of the real ones.  The reference offset is a pair
  of reals; the rounding of \<^verbatim>\<open>cos\<close> and \<^verbatim>\<open>sin\<close> is not modelled.

  Every exception the interpreter can raise in the modelled code is a value of \<open>error\<close>.
\<close>

type_synonym point = "int \<times> int"

datatype error = ZeroDivisionError | IndexError | ValueError

text \<open>Sequencing of computations that may raise: the first error ends the computation.\<close>

definition bindE :: "error + 'a \<Rightarrow> ('a \<Rightarrow> error + 'b) \<Rightarrow> error + 'b" where
  "bindE m f = (case m of Inl e \<Rightarrow> Inl e | Inr v \<Rightarrow> f v)"

text \<open>Python's true division \<^verbatim>\<open>a / b\<close> on integers.\<close>

definition truediv :: "int \<Rightarrow> int \<Rightarrow> error + real" where
  "truediv a b = (if b = 0 then Inl ZeroDivisionError else Inr (real_of_int a / real_of_int b))"

section \<open>The line generator\<close>

text \<open>The guarded quotient \<^verbatim>\<open>slope = dy / dx if dx != 0 else 10.0\<close>.\<close>

definition lineSlope :: "int \<Rightarrow> int \<Rightarrow> error + real" where
  "lineSlope dy dx = (if dx \<noteq> 0 then truediv dy dx else Inr 10)"

text \<open>
  One iteration of either \<^verbatim>\<open>for\<close> loop of \<^verbatim>\<open>bresenhamLineGenerator\<close>.  The two loops
  of the source are the same text up to the appended pair, \<^verbatim>\<open>(y, x)\<close> when
  \<^verbatim>\<open>slopeSmallerThanOne\<close> holds and \<^verbatim>\<open>(x, y)\<close> otherwise.  The loop state is
  \<open>(flag, x, y, p, linePixel)\<close>.
\<close>

fun lineStep ::
  "bool \<Rightarrow> int \<Rightarrow> int \<Rightarrow> int \<Rightarrow> int \<Rightarrow> int \<Rightarrow> int \<Rightarrow>
   bool \<times> int \<times> int \<times> int \<times> point list \<Rightarrow> bool \<times> int \<times> int \<times> int \<times> point list" where
  "lineStep slopeSmallerThanOne x0 p0 dx dy xStep yStep (flag, x, y, p, linePixel) =
     (let xPrevious = (if flag then x0 else x);
          pPrevious = (if flag then p0 else p);
          p1 = (if flag then p0 else p);
          x' = (if p1 \<ge> 0 then x + xStep else x);
          p' = pPrevious + 2 * dx - 2 * dy * \<bar>x' - xPrevious\<bar>;
          y' = y + yStep
      in (False, x', y', p', linePixel @ [if slopeSmallerThanOne then (y', x') else (x', y')]))"

text \<open>
  \<^verbatim>\<open>bresenhamLineGenerator(x0, y0, x1, y1)\<close>.  The variable \<^verbatim>\<open>p\<close> is unbound in the
  source until the first iteration sets it to \<^verbatim>\<open>p0\<close>; the model starts it at \<open>p0\<close>.
\<close>

definition bresenhamLineGenerator :: "int \<Rightarrow> int \<Rightarrow> int \<Rightarrow> int \<Rightarrow> error + point list" where
  "bresenhamLineGenerator x0 y0 x1 y1 =
     (let dx = \<bar>x1 - x0\<bar>;
          dy = \<bar>y1 - y0\<bar>
      in case lineSlope dy dx of
           Inl e \<Rightarrow> Inl e
         | Inr slope \<Rightarrow>
            (let linePixel = [(x0, y0)];
                 yStep = (if slope \<ge> 1 \<and> y0 > y1 then - 1 else 1);
                 xStep = (if ((x0 > x1 \<or> y0 > y1) \<and> slope < 1)
                             \<or> (slope > 1 \<and> x0 > x1 \<and> y0 > y1)
                             \<or> (x0 > x1 \<and> y0 < y1)
                          then - 1 else 1);
                 slopeSmallerThanOne = (slope < 1);
                 (x0', x1', y0', y1') =
                    (if slope < 1 then (y0, y1, x0, x1) else (x0, x1, y0, y1));
                 dx' = (if slope < 1 then \<bar>x1' - x0'\<bar> else dx);
                 dy' = (if slope < 1 then \<bar>y1' - y0'\<bar> else dy);
                 p0 = 2 * dx' - dy'
             in Inr (snd (snd (snd (snd
                  ((lineStep slopeSmallerThanOne x0' p0 dx' dy' xStep yStep ^^ nat \<bar>y1' - y0'\<bar>)
                     (True, x0', y0', p0, linePixel))))))))"

section \<open>Python and NumPy primitives used by the detector\<close>

text \<open>
  Indexing a Python list or a NumPy axis of length \<open>n\<close>: indices \<open>-n \<dots> -1\<close> count from the
  end, anything outside \<open>-n \<dots> n-1\<close> raises \<^verbatim>\<open>IndexError\<close>.
\<close>

definition npIndex :: "nat \<Rightarrow> int \<Rightarrow> error + nat" where
  "npIndex n i =
     (if 0 \<le> i \<and> i < int n then Inr (nat i)
      else if - int n \<le> i \<and> i < 0 then Inr (nat (int n + i))
      else Inl IndexError)"

definition getitem :: "'a list \<Rightarrow> int \<Rightarrow> error + 'a" where
  "getitem xs i = bindE (npIndex (length xs) i) (\<lambda>j. Inr (xs ! j))"

text \<open>\<^verbatim>\<open>int(r)\<close> on a float: truncation towards zero.\<close>

definition pyInt :: "real \<Rightarrow> int" where
  "pyInt r = (if 0 \<le> r then \<lfloor>r\<rfloor> else \<lceil>r\<rceil>)"

text \<open>\<^verbatim>\<open>range(start, stop, step)\<close>: a zero step raises \<^verbatim>\<open>ValueError\<close>.\<close>

function rangeUp :: "int \<Rightarrow> int \<Rightarrow> int \<Rightarrow> int list" where
  "rangeUp i stop step = (if 0 < step \<and> i < stop then i # rangeUp (i + step) stop step else [])"
  by pat_completeness auto
termination
  by (relation "measure (\<lambda>(i, stop, step). nat (stop - i))") auto

function rangeDown :: "int \<Rightarrow> int \<Rightarrow> int \<Rightarrow> int list" where
  "rangeDown i stop step = (if step < 0 \<and> stop < i then i # rangeDown (i + step) stop step else [])"
  by pat_completeness auto
termination
  by (relation "measure (\<lambda>(i, stop, step). nat (i - stop))") auto

definition pyRange :: "int \<Rightarrow> int \<Rightarrow> int \<Rightarrow> error + int list" where
  "pyRange start stop step =
     (if step = 0 then Inl ValueError
      else if 0 < step then Inr (rangeUp start stop step)
      else Inr (rangeDown start stop step))"

text \<open>
  \<^verbatim>\<open>int(s, 2)\<close> on a string of the characters \<^verbatim>\<open>0\<close> and \<^verbatim>\<open>1\<close>, the only strings the
  detector builds; the empty string raises \<^verbatim>\<open>ValueError\<close>, as does any other character
  here (signs, blanks, underscores and the prefix \<^verbatim>\<open>0b\<close> never occur).
\<close>

fun binDigits :: "string \<Rightarrow> int \<Rightarrow> error + int" where
  "binDigits [] acc = Inr acc"
| "binDigits (c # cs) acc =
     (if c = CHR ''0'' then binDigits cs (2 * acc)
      else if c = CHR ''1'' then binDigits cs (2 * acc + 1)
      else Inl ValueError)"

definition pyIntBase2 :: "string \<Rightarrow> error + int" where
  "pyIntBase2 s = (if s = [] then Inl ValueError else binDigits s 0)"

text \<open>\<^verbatim>\<open>math.radians\<close>.\<close>

definition radians :: "real \<Rightarrow> real" where
  "radians d = d * pi / 180"

text \<open>
  The grayscale frame: a two-dimensional array of intensities, read as
  \<^verbatim>\<open>gray[row, column]\<close>.
\<close>

record image =
  imgRows :: nat
  imgCols :: nat
  imgData :: "nat \<Rightarrow> nat \<Rightarrow> nat"

definition grayAt :: "image \<Rightarrow> int \<Rightarrow> int \<Rightarrow> error + nat" where
  "grayAt gray r c =
     bindE (npIndex (imgRows gray) r) (\<lambda>i.
     bindE (npIndex (imgCols gray) c) (\<lambda>j.
       Inr (imgData gray i j)))"

section \<open>The corner resolver\<close>

text \<open>
  The vertices of a polygon are NumPy \<^verbatim>\<open>int32\<close> values, and so are the results of
  \<^verbatim>\<open>-\<close>, \<^verbatim>\<open>+\<close>, \<^verbatim>\<open>** 2\<close> and \<^verbatim>\<open>// 2\<close> on them: they wrap modulo \<open>2\<^sup>3\<^sup>2\<close> into
  \<open>-2\<^sup>3\<^sup>1 \<dots> 2\<^sup>3\<^sup>1 - 1\<close>.
\<close>

definition wrap32 :: "int \<Rightarrow> int" where
  "wrap32 v = (v + 2147483648) mod 4294967296 - 2147483648"

text \<open>
  \<^verbatim>\<open>computeDistance(p1, p2)\<close> on two vertices.  When the wrapped sum of squares is
  negative, \<^verbatim>\<open>** 0.5\<close> gives NaN, here \<open>None\<close>.
\<close>

definition computeDistance :: "point \<Rightarrow> point \<Rightarrow> real option" where
  "computeDistance p1 p2 =
     (let s = wrap32 (wrap32 ((wrap32 (fst p2 - fst p1))\<^sup>2)
                      + wrap32 ((wrap32 (snd p2 - snd p1))\<^sup>2))
      in if s < 0 then None else Some (real_of_int s powr 0.5))"

text \<open>
  A polygon is the list of its vertices (the source's \<^verbatim>\<open>poly[i][0]\<close> is the \<open>i\<close>-th
  vertex).  \<^verbatim>\<open>matchingSides\<close> is the list comprehension over \<^verbatim>\<open>enumerate(poly)\<close>; the
  comparison of NaN with \<open>80.0\<close> is false.
\<close>

definition matchingSides :: "point list \<Rightarrow> nat list" where
  "matchingSides poly =
     (let totalVertices = length poly
      in filter (\<lambda>vertexIndex.
           case computeDistance (poly ! vertexIndex)
                  (poly ! ((vertexIndex + 1) mod totalVertices)) of
             None \<Rightarrow> False
           | Some d \<Rightarrow> d < 80)
           [0..<length poly])"

text \<open>
  The test of one pair of sides in the loop over \<^verbatim>\<open>enumerate(matchingSides)\<close>: the four
  vertex reads, then the \<^verbatim>\<open>if\<close>/\<^verbatim>\<open>elif\<close> on shared points.  The result is the concave
  corner when \<^verbatim>\<open>cornerFound\<close> is set.
\<close>

definition cornerOfPair :: "point list \<Rightarrow> nat list \<Rightarrow> nat \<Rightarrow> nat \<Rightarrow> error + point option" where
  "cornerOfPair poly sides loopIndex side =
     (let totalVertices = length poly in
      bindE (getitem poly (int side)) (\<lambda>firstSideFirstPoint.
      bindE (getitem poly (int ((side + 1) mod totalVertices))) (\<lambda>firstSideSecondPoint.
      bindE (getitem sides (int ((loopIndex + 1) mod 3))) (\<lambda>nextSide.
      bindE (getitem poly (int nextSide)) (\<lambda>secondSideFirstPoint.
      bindE (getitem poly (int ((nextSide + 1) mod totalVertices))) (\<lambda>secondSideSecondPoint.
        Inr (if firstSideFirstPoint = secondSideFirstPoint
                \<or> firstSideFirstPoint = secondSideSecondPoint
             then Some firstSideFirstPoint
             else if firstSideSecondPoint = secondSideFirstPoint
                \<or> firstSideSecondPoint = secondSideSecondPoint
             then Some firstSideSecondPoint
             else None)))))))"

text \<open>\<^verbatim>\<open>lowerSideMiddlePoint\<close>: the midpoint of the side two places ahead in \<^verbatim>\<open>matchingSides\<close>.\<close>

definition lowerSideMiddle :: "point list \<Rightarrow> nat list \<Rightarrow> nat \<Rightarrow> error + point" where
  "lowerSideMiddle poly sides loopIndex =
     (let totalVertices = length poly in
      bindE (getitem sides (int ((loopIndex + 2) mod 3))) (\<lambda>lowerIndex.
      bindE (getitem poly (int lowerIndex)) (\<lambda>lowerFirst.
      bindE (getitem poly (int ((lowerIndex + 1) mod totalVertices))) (\<lambda>lowerSecond.
        Inr (wrap32 (fst lowerFirst + fst lowerSecond) div 2,
             wrap32 (snd lowerFirst + snd lowerSecond) div 2)))))"

text \<open>
  The loop over \<^verbatim>\<open>enumerate(matchingSides)\<close> up to the point where the axis is drawn: it
  runs until a pair of sides yields a corner, and the body of \<^verbatim>\<open>if cornerFound\<close> ends in
  \<^verbatim>\<open>break\<close>, so that body runs at most once, for the first such pair.
\<close>

fun resolveLoop :: "point list \<Rightarrow> nat list \<Rightarrow> (nat \<times> nat) list \<Rightarrow> error + (point \<times> point) option" where
  "resolveLoop poly sides [] = Inr None"
| "resolveLoop poly sides ((loopIndex, side) # rest) =
     (case cornerOfPair poly sides loopIndex side of
        Inl e \<Rightarrow> Inl e
      | Inr None \<Rightarrow> resolveLoop poly sides rest
      | Inr (Some concaveCornerPoint) \<Rightarrow>
          bindE (lowerSideMiddle poly sides loopIndex) (\<lambda>lowerSideMiddlePoint.
            Inr (Some (concaveCornerPoint, lowerSideMiddlePoint))))"

definition resolveCorner :: "point list \<Rightarrow> error + (point \<times> point) option" where
  "resolveCorner poly =
     (let sides = matchingSides poly
      in resolveLoop poly sides (zip [0..<length sides] sides))"

section \<open>The ring decoder\<close>

text \<open>The \<^verbatim>\<open>if\<close>/\<^verbatim>\<open>elif\<close> block that corrects the sample index.\<close>

definition tempIndexOf :: "nat \<Rightarrow> int \<Rightarrow> int" where
  "tempIndexOf actCycle intervalCentreIndex =
     (if actCycle \<in> set [1, 2, 3, 4] then pyInt (real_of_int intervalCentreIndex * 0.85)
      else if actCycle = 0 then pyInt (real_of_int intervalCentreIndex * 0.9)
      else intervalCentreIndex)"

text \<open>The intensity \<^verbatim>\<open>gray[markerAxis[tempIndex][1], markerAxis[tempIndex][0]]\<close>.\<close>

definition intensityAt :: "image \<Rightarrow> point list \<Rightarrow> int \<Rightarrow> error + nat" where
  "intensityAt gray markerAxis tempIndex =
     bindE (getitem markerAxis tempIndex) (\<lambda>pt. grayAt gray (snd pt) (fst pt))"

text \<open>The character appended to \<^verbatim>\<open>binaryRepr\<close> for one intensity.\<close>

definition slotBit :: "nat \<Rightarrow> string" where
  "slotBit v = (if v > 180 then ''0'' else ''1'')"

text \<open>The sampling loop over \<^verbatim>\<open>range(cycleJump, markerAxisLen, cycleJump)\<close>.\<close>

fun sampleLoop :: "image \<Rightarrow> point list \<Rightarrow> int list \<Rightarrow> nat \<Rightarrow> string \<Rightarrow> error + string" where
  "sampleLoop gray markerAxis [] actCycle binaryRepr = Inr binaryRepr"
| "sampleLoop gray markerAxis (intervalCentreIndex # rest) actCycle binaryRepr =
     (case intensityAt gray markerAxis (tempIndexOf actCycle intervalCentreIndex) of
        Inl e \<Rightarrow> Inl e
      | Inr v \<Rightarrow> sampleLoop gray markerAxis rest (actCycle + 1) (binaryRepr @ slotBit v))"

text \<open>\<^verbatim>\<open>cycleJump = int(markerAxisLen / 10 * 1.95)\<close>.\<close>

definition cycleJumpOf :: "int \<Rightarrow> int" where
  "cycleJumpOf markerAxisLen = pyInt (real_of_int markerAxisLen / 10 * 1.95)"

text \<open>\<^verbatim>\<open>int(binaryRepr[::-1], 2)\<close>.\<close>

definition identifierOfBits :: "string \<Rightarrow> error + int" where
  "identifierOfBits binaryRepr = pyIntBase2 (rev binaryRepr)"

text \<open>From the axis to the decoded identifier.\<close>

definition decodeMarker :: "image \<Rightarrow> point list \<Rightarrow> error + int" where
  "decodeMarker gray markerAxis =
     (let markerAxisLen = int (length markerAxis);
          cycleJump = cycleJumpOf markerAxisLen
      in bindE (pyRange cycleJump markerAxisLen cycleJump) (\<lambda>centres.
         bindE (sampleLoop gray markerAxis centres 0 []) (\<lambda>binaryRepr.
           identifierOfBits binaryRepr)))"

text \<open>The reference offset \<open>(qx, qy)\<close> of a decoded identifier.\<close>

definition referenceOffset :: "int \<Rightarrow> real \<times> real" where
  "referenceOffset binaryRepr =
     (let radAngle = radians (- 15)
      in (cos (radAngle * real_of_int binaryRepr) * 70,
          sin (radAngle * real_of_int binaryRepr) * 70))"

text \<open>One row of the output file: the fields of the formatted line, the last one the
  constant \<open>0\<close>.\<close>

record outputRecord =
  rowFrame :: int
  rowIdentifier :: int
  rowAnchorX :: int
  rowAnchorY :: int
  rowOffsetX :: real
  rowOffsetY :: real
  rowReserved :: int

text \<open>The body of \<^verbatim>\<open>if cornerFound\<close> from the call of the line generator on.\<close>

definition readMarker :: "image \<Rightarrow> int \<Rightarrow> point \<Rightarrow> point \<Rightarrow> error + outputRecord" where
  "readMarker gray currentFrame concaveCornerPoint lowerSideMiddlePoint =
     bindE (bresenhamLineGenerator (fst concaveCornerPoint) (snd concaveCornerPoint)
              (fst lowerSideMiddlePoint) (snd lowerSideMiddlePoint)) (\<lambda>markerAxis.
     bindE (decodeMarker gray markerAxis) (\<lambda>binaryRepr.
     bindE (getitem markerAxis 0) (\<lambda>anchor.
       Inr \<lparr>rowFrame = currentFrame, rowIdentifier = binaryRepr,
            rowAnchorX = fst anchor, rowAnchorY = snd anchor,
            rowOffsetX = fst (referenceOffset binaryRepr),
            rowOffsetY = snd (referenceOffset binaryRepr),
            rowReserved = 0\<rparr>)))"

text \<open>The body of \<^verbatim>\<open>for poly in polygons\<close>: no row when no corner is found.\<close>

definition processPolygon :: "image \<Rightarrow> int \<Rightarrow> point list \<Rightarrow> error + outputRecord option" where
  "processPolygon gray currentFrame poly =
     bindE (resolveCorner poly) (\<lambda>r.
       case r of
         None \<Rightarrow> Inr None
       | Some (concaveCornerPoint, lowerSideMiddlePoint) \<Rightarrow>
           bindE (readMarker gray currentFrame concaveCornerPoint lowerSideMiddlePoint)
             (\<lambda>row. Inr (Some row)))"

text \<open>
  \<^verbatim>\<open>detectAndLabelMarkers\<close> from the polygon loop on.  Its inputs are what the image
  library hands over: the masked grayscale frame and the five-vertex polygons.  The result
  is the list of rows appended to the output file.
\<close>

fun polygonsLoop ::
  "image \<Rightarrow> int \<Rightarrow> point list list \<Rightarrow> outputRecord list \<Rightarrow> error + outputRecord list" where
  "polygonsLoop gray currentFrame [] outputFileContent = Inr outputFileContent"
| "polygonsLoop gray currentFrame (poly # rest) outputFileContent =
     (case processPolygon gray currentFrame poly of
        Inl e \<Rightarrow> Inl e
      | Inr None \<Rightarrow> polygonsLoop gray currentFrame rest outputFileContent
      | Inr (Some row) \<Rightarrow> polygonsLoop gray currentFrame rest (outputFileContent @ [row]))"

definition detectAndLabelMarkers :: "image \<Rightarrow> int \<Rightarrow> point list list \<Rightarrow> error + outputRecord list" where
  "detectAndLabelMarkers gray currentFrame polygons = polygonsLoop gray currentFrame polygons []"

section \<open>Vocabulary for stating properties\<close>

text \<open>The list of pixels in a state of the line generator's loop.\<close>

abbreviation pixelsOf :: "bool \<times> int \<times> int \<times> int \<times> point list \<Rightarrow> point list" where
  "pixelsOf s \<equiv> snd (snd (snd (snd s)))"

text \<open>The values of a list of computations, or the first error among them.\<close>

fun collectE :: "(error + 'a) list \<Rightarrow> error + 'a list" where
  "collectE [] = Inr []"
| "collectE (Inl e # rest) = Inl e"
| "collectE (Inr v # rest) = bindE (collectE rest) (\<lambda>vs. Inr (v # vs))"

text \<open>Consecutive points differ by at most one in each coordinate.\<close>

fun eightConnected :: "point list \<Rightarrow> bool" where
  "eightConnected (p # q # rest) =
     (\<bar>fst q - fst p\<bar> \<le> 1 \<and> \<bar>snd q - snd p\<bar> \<le> 1 \<and> eightConnected (q # rest))"
| "eightConnected [p] = True"
| "eightConnected [] = True"

text \<open>
  The number of minor-axis moves a midpoint line with increments \<open>dx \<le> dy\<close> has made
  after \<open>k\<close> steps along its major axis.
\<close>

definition minorSteps :: "int \<Rightarrow> int \<Rightarrow> nat \<Rightarrow> int" where
  "minorSteps dx dy k = (2 * dx * int k + dy) div (2 * dy)"

text \<open>
  Coordinates on which the \<^verbatim>\<open>int32\<close> arithmetic of the corner resolver cannot wrap:
  \<open>46340\<close> is the largest integer whose square is below \<open>2\<^sup>3\<^sup>1\<close>.
\<close>

definition pixelRange :: "point list \<Rightarrow> bool" where
  "pixelRange poly =
     list_all (\<lambda>pt. 0 \<le> fst pt \<and> fst pt \<le> 46340 \<and> 0 \<le> snd pt \<and> snd pt \<le> 46340) poly"


section \<open>The corner resolver as the specification words it\<close>

text \<open>
  These definitions follow the specification's text (data model and section 4.2), not the
  code: edge \<open>i\<close> joins vertex \<open>i\<close> to vertex \<open>(i + 1) mod N\<close>; an edge is short when its
  Euclidean length is below 80; consecutive short edges are paired cyclically with indices
  taken mod 3; the first pair with a common endpoint gives the corner, and the edge two
  places ahead gives the axis endpoint, the integer-averaged midpoint of its vertices.
\<close>

definition edgeOf_spec :: "point list \<Rightarrow> nat \<Rightarrow> point \<times> point" where
  "edgeOf_spec poly i = (poly ! i, poly ! ((i + 1) mod length poly))"

definition edgeLength_spec :: "point \<times> point \<Rightarrow> real" where
  "edgeLength_spec e =
     sqrt (real_of_int ((fst (snd e) - fst (fst e))\<^sup>2 + (snd (snd e) - snd (fst e))\<^sup>2))"

definition shortEdges_spec :: "point list \<Rightarrow> nat list" where
  "shortEdges_spec poly = filter (\<lambda>i. edgeLength_spec (edgeOf_spec poly i) < 80) [0..<length poly]"

definition sharesEndpoint_spec :: "point \<times> point \<Rightarrow> point \<times> point \<Rightarrow> bool" where
  "sharesEndpoint_spec e f =
     (fst e = fst f \<or> fst e = snd f \<or> snd e = fst f \<or> snd e = snd f)"

definition sharedPoint_spec :: "point \<times> point \<Rightarrow> point \<times> point \<Rightarrow> point" where
  "sharedPoint_spec e f = (if fst e = fst f \<or> fst e = snd f then fst e else snd e)"

definition midpoint_spec :: "point \<times> point \<Rightarrow> point" where
  "midpoint_spec e = ((fst (fst e) + fst (snd e)) div 2, (snd (fst e) + snd (snd e)) div 2)"

definition cornerResolver_spec :: "point list \<Rightarrow> (point \<times> point) option" where
  "cornerResolver_spec poly =
     (let S = shortEdges_spec poly
      in case find (\<lambda>i. sharesEndpoint_spec (edgeOf_spec poly (S ! i))
                          (edgeOf_spec poly (S ! ((i + 1) mod 3)))) [0..<length S] of
           None \<Rightarrow> None
         | Some i \<Rightarrow>
             Some (sharedPoint_spec (edgeOf_spec poly (S ! i))
                     (edgeOf_spec poly (S ! ((i + 1) mod 3))),
                   midpoint_spec (edgeOf_spec poly (S ! ((i + 2) mod 3)))))"

section \<open>Basic facts\<close>

declare rangeUp.simps [simp del] rangeDown.simps [simp del]

lemma bindE_simps [simp]:
  "bindE (Inl e) f = Inl e"
  "bindE (Inr v) f = f v"
  by (simp_all add: bindE_def)

lemma lineSlope_Inr:
  "lineSlope dy dx = Inr (if dx \<noteq> 0 then real_of_int dy / real_of_int dx else 10)"
  by (simp add: lineSlope_def truediv_def)

lemma slope_lt_one_iff:
  "dx \<noteq> 0 \<Longrightarrow> 0 \<le> dx \<Longrightarrow> (real_of_int dy / real_of_int dx < 1) = (dy < dx)"
  by (simp add: divide_less_eq)

section \<open>The line generator: start, length, vertical lines\<close>

lemma lineStep_pixels:
  "\<exists>pt. pixelsOf (lineStep sw x0 p0 dx dy xs ys s) = pixelsOf s @ [pt]"
  by (cases s) (simp add: Let_def)

lemma lineLoop_length:
  "length (pixelsOf ((lineStep sw x0 p0 dx dy xs ys ^^ n) s)) = length (pixelsOf s) + n"
proof (induction n)
  case 0
  show ?case by simp
next
  case (Suc n)
  obtain pt where "pixelsOf (lineStep sw x0 p0 dx dy xs ys ((lineStep sw x0 p0 dx dy xs ys ^^ n) s))
      = pixelsOf ((lineStep sw x0 p0 dx dy xs ys ^^ n) s) @ [pt]"
    using lineStep_pixels by blast
  with Suc show ?case by simp
qed

lemma lineLoop_hd:
  "pixelsOf s \<noteq> [] \<Longrightarrow>
   pixelsOf ((lineStep sw x0 p0 dx dy xs ys ^^ n) s) \<noteq> [] \<and>
   hd (pixelsOf ((lineStep sw x0 p0 dx dy xs ys ^^ n) s)) = hd (pixelsOf s)"
proof (induction n)
  case 0
  then show ?case by simp
next
  case (Suc n)
  obtain pt where "pixelsOf (lineStep sw x0 p0 dx dy xs ys ((lineStep sw x0 p0 dx dy xs ys ^^ n) s))
      = pixelsOf ((lineStep sw x0 p0 dx dy xs ys ^^ n) s) @ [pt]"
    using lineStep_pixels by blast
  with Suc show ?case by simp
qed

text \<open>
  Claim C7.  For all integer endpoints the generator returns a list (it raises nothing)
  whose first point is \<open>(x0, y0)\<close> and whose length is \<open>max |x1 - x0| |y1 - y0| + 1\<close>.
\<close>

theorem bresenham_start_and_length:
  "\<exists>ps. bresenhamLineGenerator x0 y0 x1 y1 = Inr ps \<and> hd ps = (x0, y0) \<and>
        int (length ps) = max \<bar>x1 - x0\<bar> \<bar>y1 - y0\<bar> + 1"
proof (cases "x1 = x0")
  case True
  then show ?thesis
    by (simp add: bresenhamLineGenerator_def lineSlope_Inr Let_def lineLoop_length lineLoop_hd)
next
  case False
  then have s: "(real_of_int \<bar>y1 - y0\<bar> / real_of_int \<bar>x1 - x0\<bar> < 1) = (\<bar>y1 - y0\<bar> < \<bar>x1 - x0\<bar>)"
    by (intro slope_lt_one_iff) auto
  show ?thesis
  proof (cases "\<bar>y1 - y0\<bar> < \<bar>x1 - x0\<bar>")
    case True
    with False s show ?thesis
      by (simp add: bresenhamLineGenerator_def lineSlope_Inr Let_def lineLoop_length lineLoop_hd)
  next
    case steep: False
    with False s show ?thesis
      by (simp add: bresenhamLineGenerator_def lineSlope_Inr Let_def lineLoop_length lineLoop_hd)
  qed
qed

theorem bresenham_start_and_length_witness:
  "\<exists>ps. bresenhamLineGenerator 0 0 5 2 = Inr ps \<and> hd ps = (0, 0) \<and> int (length ps) = 6"
  using bresenham_start_and_length [of 0 0 5 2] by simp

lemma vertical_loop:
  "0 < D \<Longrightarrow>
   (lineStep False x0 (- D) 0 D xs ys ^^ k) (f, x0, y, - D, acc) =
     (f \<and> k = 0, x0, y + int k * ys, - D, acc @ map (\<lambda>i. (x0, y + int i * ys)) [1..<Suc k])"
proof (induction k)
  case 0
  show ?case by simp
next
  case (Suc k)
  then show ?case by (simp add: Let_def algebra_simps)
qed

text \<open>
  Claim C8.  On a vertical input (\<open>x1 = x0\<close>) the slope is the constant \<open>10\<close>, no division
  is attempted, and the result is the vertical run of \<open>|y1 - y0| + 1\<close> points with
  x-coordinate \<open>x0\<close>, from \<open>y0\<close> to \<open>y1\<close>.
\<close>

theorem bresenham_vertical:
  "lineSlope \<bar>y1 - y0\<bar> \<bar>x0 - x0\<bar> = Inr 10 \<and>
   bresenhamLineGenerator x0 y0 x0 y1 =
     Inr (map (\<lambda>i. (x0, y0 + int i * (if y0 > y1 then - 1 else 1))) [0..<Suc (nat \<bar>y1 - y0\<bar>)])"
proof (cases "y1 = y0")
  case True
  then show ?thesis
    by (simp add: bresenhamLineGenerator_def lineSlope_Inr Let_def)
next
  case False
  then have D: "0 < \<bar>y1 - y0\<bar>" by simp
  have up: "[0..<Suc n] = 0 # [1..<Suc n]" for n
    by (simp add: upt_conv_Cons del: upt_Suc)
  show ?thesis
    using vertical_loop [OF D, where ?x0.0 = x0 and ys = "if y0 > y1 then - 1 else 1"
        and k = "nat \<bar>y1 - y0\<bar>" and f = True and y = y0 and acc = "[(x0, y0)]"]
    by (simp add: bresenhamLineGenerator_def lineSlope_Inr Let_def up del: upt_Suc)
qed

theorem bresenham_vertical_witness:
  "bresenhamLineGenerator 3 7 3 4 = Inr [(3, 7), (3, 6), (3, 5), (3, 4)]"
  using bresenham_vertical [of 4 7 3] by (simp add: upt_conv_Cons del: upt_Suc)

section \<open>The line generator in closed form\<close>

lemma div_add_step:
  fixes a b c :: int
  assumes "0 < b" "0 \<le> c" "c \<le> b"
  shows "(a + c) div b = a div b + (if b \<le> a mod b + c then 1 else 0)"
proof -
  have r: "0 \<le> a mod b" "a mod b < b" using assms(1) by simp_all
  have a: "a = b * (a div b) + a mod b" by simp
  show ?thesis
  proof (cases "b \<le> a mod b + c")
    case True
    have "a + c = b * (a div b + 1) + (a mod b + c - b)"
      using a by (simp add: algebra_simps)
    moreover have "0 \<le> a mod b + c - b" "a mod b + c - b < b"
      using True r assms by linarith+
    ultimately have "(a + c) div b = a div b + 1" by (rule int_div_pos_eq)
    with True show ?thesis by simp
  next
    case False
    have "a + c = b * (a div b) + (a mod b + c)"
      using a by (simp add: algebra_simps)
    moreover have "0 \<le> a mod b + c" "a mod b + c < b"
      using False r assms by linarith+
    ultimately have "(a + c) div b = a div b" by (rule int_div_pos_eq)
    with False show ?thesis by simp
  qed
qed

lemma minorSteps_0: "0 < dy \<Longrightarrow> minorSteps dx dy 0 = 0"
  by (simp add: minorSteps_def)

lemma minorSteps_Suc:
  assumes "0 \<le> dx" "dx \<le> dy" "0 < dy"
  shows "minorSteps dx dy (Suc k) = minorSteps dx dy k +
     (if 0 \<le> 2 * dx - dy + 2 * dx * int k - 2 * dy * minorSteps dx dy k then 1 else 0)"
proof -
  let ?a = "2 * dx * int k + dy" and ?b = "2 * dy"
  have m: "?a mod ?b = ?a - ?b * (?a div ?b)"
    by (simp add: minus_mult_div_eq_mod)
  have e: "2 * dx * int (Suc k) + dy = ?a + 2 * dx" by (simp add: algebra_simps)
  have "(?a + 2 * dx) div ?b = ?a div ?b + (if ?b \<le> ?a mod ?b + 2 * dx then 1 else 0)"
    using assms by (intro div_add_step) simp_all
  moreover have "(?b \<le> ?a mod ?b + 2 * dx) =
      (0 \<le> 2 * dx - dy + 2 * dx * int k - 2 * dy * (?a div ?b))"
    unfolding m by (simp add: algebra_simps)
  ultimately show ?thesis unfolding minorSteps_def e by simp
qed

lemma minorSteps_end: "0 < dy \<Longrightarrow> minorSteps dx dy (nat dy) = dx"
proof -
  assume d: "0 < dy"
  have "2 * dx * int (nat dy) + dy = 2 * dy * dx + dy" using d by simp
  moreover have "0 \<le> dy" "dy < 2 * dy" using d by simp_all
  ultimately show ?thesis unfolding minorSteps_def by (rule int_div_pos_eq)
qed

lemma lineStep_unflagged:
  assumes "flag \<Longrightarrow> x = x0 \<and> p = p0"
  shows "lineStep sw x0 p0 dx dy xs ys (flag, x, y, p, acc) =
     (False, (if 0 \<le> p then x + xs else x), y + ys,
      p + 2 * dx - 2 * dy * \<bar>(if 0 \<le> p then x + xs else x) - x\<bar>,
      acc @ [if sw then (y + ys, if 0 \<le> p then x + xs else x)
             else (if 0 \<le> p then x + xs else x, y + ys)])"
  using assms by (cases flag) (simp_all add: Let_def)

lemma lineLoop_closed_form:
  assumes "0 \<le> dx" "dx \<le> dy" "0 < dy" "\<bar>xs\<bar> = 1"
  shows "(lineStep sw a0 (2 * dx - dy) dx dy xs ys ^^ k) (True, a0, b0, 2 * dx - dy, acc) =
     (k = 0, a0 + xs * minorSteps dx dy k, b0 + int k * ys,
      2 * dx - dy + 2 * dx * int k - 2 * dy * minorSteps dx dy k,
      acc @ map (\<lambda>i. if sw then (b0 + int i * ys, a0 + xs * minorSteps dx dy i)
                      else (a0 + xs * minorSteps dx dy i, b0 + int i * ys)) [1..<Suc k])"
proof (induction k)
  case 0
  show ?case using assms(3) by (simp add: minorSteps_0)
next
  case (Suc k)
  let ?p = "2 * dx - dy + 2 * dx * int k - 2 * dy * minorSteps dx dy k"
  let ?x = "a0 + xs * minorSteps dx dy k"
  note s = minorSteps_Suc [OF assms(1-3), of k]
  have pre: "k = 0 \<Longrightarrow> ?x = a0 \<and> ?p = 2 * dx - dy"
    using assms(3) by (simp add: minorSteps_0)
  let ?f = "lineStep sw a0 (2 * dx - dy) dx dy xs ys"
  let ?pts = "acc @ map (\<lambda>i. if sw then (b0 + int i * ys, a0 + xs * minorSteps dx dy i)
                      else (a0 + xs * minorSteps dx dy i, b0 + int i * ys)) [1..<Suc k]"
  have st: "?f (k = 0, ?x, b0 + int k * ys, ?p, ?pts) =
     (False, (if 0 \<le> ?p then ?x + xs else ?x), b0 + int k * ys + ys,
      ?p + 2 * dx - 2 * dy * \<bar>(if 0 \<le> ?p then ?x + xs else ?x) - ?x\<bar>,
      ?pts @ [if sw then (b0 + int k * ys + ys, if 0 \<le> ?p then ?x + xs else ?x)
             else (if 0 \<le> ?p then ?x + xs else ?x, b0 + int k * ys + ys)])"
    by (rule lineStep_unflagged [OF pre])
  have "(?f ^^ Suc k) (True, a0, b0, 2 * dx - dy, acc) =
        ?f ((?f ^^ k) (True, a0, b0, 2 * dx - dy, acc))" by simp
  also have "\<dots> = ?f (k = 0, ?x, b0 + int k * ys, ?p, ?pts)"
    by (simp only: Suc.IH)
  finally have run: "(?f ^^ Suc k) (True, a0, b0, 2 * dx - dy, acc) =
     (False, (if 0 \<le> ?p then ?x + xs else ?x), b0 + int k * ys + ys,
      ?p + 2 * dx - 2 * dy * \<bar>(if 0 \<le> ?p then ?x + xs else ?x) - ?x\<bar>,
      ?pts @ [if sw then (b0 + int k * ys + ys, if 0 \<le> ?p then ?x + xs else ?x)
             else (if 0 \<le> ?p then ?x + xs else ?x, b0 + int k * ys + ys)])"
    by (simp only: st)
  show ?case
  proof (cases "0 \<le> ?p")
    case True
    then have m: "minorSteps dx dy (Suc k) = minorSteps dx dy k + 1" using s by simp
    show ?thesis
      unfolding run using True assms(4) by (simp add: m algebra_simps)
  next
    case False
    then have m: "minorSteps dx dy (Suc k) = minorSteps dx dy k" using s by simp
    show ?thesis
      unfolding run using False by (simp add: m algebra_simps)
  qed
qed

lemma upt_0_Suc: "[0..<Suc n] = 0 # [1..<Suc n]"
  by (simp add: upt_conv_Cons del: upt_Suc)

lemma bresenham_closed_form:
  "bresenhamLineGenerator x0 y0 x1 y1 = Inr
     (if x1 \<noteq> x0 \<and> \<bar>y1 - y0\<bar> < \<bar>x1 - x0\<bar> then
        map (\<lambda>i. (x0 + int i,
                   y0 + (if x0 > x1 \<or> y0 > y1 then - 1 else 1)
                        * minorSteps \<bar>y1 - y0\<bar> \<bar>x1 - x0\<bar> i))
          [0..<Suc (nat \<bar>x1 - x0\<bar>)]
      else
        map (\<lambda>i. (x0 + (if x0 > x1 \<and> (y0 < y1 \<or> (y0 > y1 \<and> \<bar>x1 - x0\<bar> < \<bar>y1 - y0\<bar>))
                         then - 1 else 1)
                        * minorSteps \<bar>x1 - x0\<bar> \<bar>y1 - y0\<bar> i,
                   y0 + int i * (if y0 > y1 then - 1 else 1)))
          [0..<Suc (nat \<bar>y1 - y0\<bar>)])"
proof -
  define DX where "DX = \<bar>x1 - x0\<bar>"
  define DY where "DY = \<bar>y1 - y0\<bar>"
  have fold: "\<bar>x1 - x0\<bar> = DX" "\<bar>y1 - y0\<bar> = DY" by (simp_all add: DX_def DY_def)
  have nn: "0 \<le> DX" "0 \<le> DY" by (simp_all add: DX_def DY_def)
  have zx: "(DX = 0) = (x1 = x0)" and zy: "(DY = 0) = (y1 = y0)" by (auto simp add: DX_def DY_def)
  have goal: "bresenhamLineGenerator x0 y0 x1 y1 = Inr
     (if x1 \<noteq> x0 \<and> DY < DX then
        map (\<lambda>i. (x0 + int i,
                   y0 + (if x0 > x1 \<or> y0 > y1 then - 1 else 1) * minorSteps DY DX i))
          [0..<Suc (nat DX)]
      else
        map (\<lambda>i. (x0 + (if x0 > x1 \<and> (y0 < y1 \<or> (y0 > y1 \<and> DX < DY)) then - 1 else 1)
                        * minorSteps DX DY i,
                   y0 + int i * (if y0 > y1 then - 1 else 1)))
          [0..<Suc (nat DY)])"
  proof (cases "x1 \<noteq> x0 \<and> DY < DX")
    case True
    then have ne: "DX \<noteq> 0" and sl: "real_of_int DY / real_of_int DX < 1"
      using slope_lt_one_iff [of DX DY] nn zx by auto
    let ?xs = "if x0 > x1 \<or> y0 > y1 then - 1 else 1 :: int"
    have cf: "(lineStep True y0 (2 * DY - DX) DY DX ?xs 1 ^^ nat DX)
                (True, y0, x0, 2 * DY - DX, [(x0, y0)]) =
       (nat DX = 0, y0 + ?xs * minorSteps DY DX (nat DX), x0 + int (nat DX) * 1,
        2 * DY - DX + 2 * DY * int (nat DX) - 2 * DX * minorSteps DY DX (nat DX),
        [(x0, y0)] @ map (\<lambda>i. if True then (x0 + int i * 1, y0 + ?xs * minorSteps DY DX i)
                        else (y0 + ?xs * minorSteps DY DX i, x0 + int i * 1)) [1..<Suc (nat DX)])"
      using True nn by (intro lineLoop_closed_form) auto
    have z: "minorSteps DY DX 0 = 0" using True nn by (intro minorSteps_0) auto
    have xs: "(if ((x0 > x1 \<or> y0 > y1) \<and> real_of_int DY / real_of_int DX < 1)
                  \<or> (1 < real_of_int DY / real_of_int DX \<and> x0 > x1 \<and> y0 > y1)
                  \<or> (x0 > x1 \<and> y0 < y1) then - 1 else 1 :: int) = ?xs"
      using sl by auto
    have ys: "(if 1 \<le> real_of_int DY / real_of_int DX \<and> y0 > y1 then - 1 else 1 :: int) = 1"
      using sl by auto
    have "bresenhamLineGenerator x0 y0 x1 y1 =
       Inr (pixelsOf ((lineStep True y0 (2 * DY - DX) DY DX ?xs 1 ^^ nat DX)
                (True, y0, x0, 2 * DY - DX, [(x0, y0)])))"
    proof -
      have nsg: "\<not> 1 < real_of_int DY / real_of_int DX" "\<not> 1 \<le> real_of_int DY / real_of_int DX"
        using sl by simp_all
      have c: "((x1 < x0 \<or> y1 < y0) \<or> x1 < x0 \<and> y0 < y1) = (x1 < x0 \<or> y1 < y0)" by blast
      show ?thesis
        unfolding bresenhamLineGenerator_def lineSlope_Inr Let_def fold
        using ne by (simp add: sl nsg fold c)
    qed
    then show ?thesis
      unfolding cf if_P [OF True] using z by (simp add: upt_0_Suc del: upt_Suc)
  next
    case False
    let ?ys = "if y0 > y1 then - 1 else 1 :: int"
    let ?xs = "if x0 > x1 \<and> (y0 < y1 \<or> (y0 > y1 \<and> DX < DY)) then - 1 else 1 :: int"
    have nsl: "\<not> (if DX \<noteq> 0 then real_of_int DY / real_of_int DX else 10) < 1"
      using False slope_lt_one_iff [of DX DY] nn zx by auto
    have sge: "1 \<le> (if DX \<noteq> 0 then real_of_int DY / real_of_int DX else 10)"
      using nsl by simp
    have sg: "(1 < (if DX \<noteq> 0 then real_of_int DY / real_of_int DX else 10)) = (DX = 0 \<or> DX < DY)"
      using nn by (auto simp add: less_divide_eq)
    have xs: "(if ((x0 > x1 \<or> y0 > y1) \<and> (if DX \<noteq> 0 then real_of_int DY / real_of_int DX else 10) < 1)
                  \<or> (1 < (if DX \<noteq> 0 then real_of_int DY / real_of_int DX else 10) \<and> x0 > x1 \<and> y0 > y1)
                  \<or> (x0 > x1 \<and> y0 < y1) then - 1 else 1 :: int) = ?xs"
      unfolding sg using nsl zx by auto
    have ys: "(if 1 \<le> (if DX \<noteq> 0 then real_of_int DY / real_of_int DX else 10) \<and> y0 > y1
               then - 1 else 1 :: int) = ?ys"
      using sge by auto
    have run: "bresenhamLineGenerator x0 y0 x1 y1 =
       Inr (pixelsOf ((lineStep False x0 (2 * DX - DY) DX DY ?xs ?ys ^^ nat DY)
                (True, x0, y0, 2 * DX - DY, [(x0, y0)])))"
      unfolding bresenhamLineGenerator_def lineSlope_Inr Let_def fold
      using xs ys by (simp add: nsl fold)
    show ?thesis
    proof (cases "DY = 0")
      case True
      then show ?thesis unfolding run if_not_P [OF False] by (simp add: minorSteps_def)
    next
      case ny: False
      have le: "DX \<le> DY" using False zx nn by auto
      have pos: "0 < DY" using ny nn by simp
      have cf: "(lineStep False x0 (2 * DX - DY) DX DY ?xs ?ys ^^ nat DY)
                (True, x0, y0, 2 * DX - DY, [(x0, y0)]) =
       (nat DY = 0, x0 + ?xs * minorSteps DX DY (nat DY), y0 + int (nat DY) * ?ys,
        2 * DX - DY + 2 * DX * int (nat DY) - 2 * DY * minorSteps DX DY (nat DY),
        [(x0, y0)] @ map (\<lambda>i. if False then (y0 + int i * ?ys, x0 + ?xs * minorSteps DX DY i)
                        else (x0 + ?xs * minorSteps DX DY i, y0 + int i * ?ys)) [1..<Suc (nat DY)])"
        using le pos nn by (intro lineLoop_closed_form) auto
      have z: "minorSteps DX DY 0 = 0" using pos by (rule minorSteps_0)
      show ?thesis
        unfolding run cf if_not_P [OF False] using z by (simp add: upt_0_Suc del: upt_Suc)
    qed
  qed
  then show ?thesis unfolding fold .
qed

lemma bresenham_returns: "\<exists>ps. bresenhamLineGenerator x0 y0 x1 y1 = Inr ps"
  unfolding bresenham_closed_form by blast

lemma eightConnected_snoc:
  "ps \<noteq> [] \<Longrightarrow>
   eightConnected (ps @ [q]) =
     (eightConnected ps \<and> \<bar>fst q - fst (last ps)\<bar> \<le> 1 \<and> \<bar>snd q - snd (last ps)\<bar> \<le> 1)"
  by (induction ps rule: eightConnected.induct) auto

lemma eightConnected_map_upt:
  assumes "\<And>i. i < n \<Longrightarrow> \<bar>fst (f (Suc i)) - fst (f i)\<bar> \<le> 1 \<and> \<bar>snd (f (Suc i)) - snd (f i)\<bar> \<le> 1"
  shows "eightConnected (map f [0..<Suc n])"
  using assms
proof (induction n)
  case 0
  show ?case by simp
next
  case (Suc n)
  have ih: "eightConnected (map f [0..<Suc n])" using Suc by simp
  have l: "last (map f [0..<Suc n]) = f n" by simp
  have "map f [0..<Suc (Suc n)] = map f [0..<Suc n] @ [f (Suc n)]" by simp
  moreover have "eightConnected (map f [0..<Suc n] @ [f (Suc n)])"
    using eightConnected_snoc [of "map f [0..<Suc n]" "f (Suc n)"] ih Suc.prems [of n]
    unfolding l by simp
  ultimately show ?case by (simp only:)
qed

lemma minorSteps_step:
  assumes "0 \<le> dx" "dx \<le> dy" "0 < dy"
  shows "\<bar>minorSteps dx dy (Suc k) - minorSteps dx dy k\<bar> \<le> 1"
  using minorSteps_Suc [OF assms, of k] by (simp split: if_splits)

lemma bresenham_eight_connected:
  "\<exists>ps. bresenhamLineGenerator x0 y0 x1 y1 = Inr ps \<and> eightConnected ps"
proof -
  let ?DX = "\<bar>x1 - x0\<bar>" and ?DY = "\<bar>y1 - y0\<bar>"
  show ?thesis
  proof (cases "x1 \<noteq> x0 \<and> ?DY < ?DX")
    case True
    have st: "\<bar>minorSteps ?DY ?DX (Suc k) - minorSteps ?DY ?DX k\<bar> \<le> 1" for k
      using True by (intro minorSteps_step) auto
    have "eightConnected (map (\<lambda>i. (x0 + int i,
                   y0 + (if x0 > x1 \<or> y0 > y1 then - 1 else 1)
                        * minorSteps ?DY ?DX i)) [0..<Suc (nat ?DX)])"
    proof (rule eightConnected_map_upt)
      fix i
      show "\<bar>fst (x0 + int (Suc i), y0 + (if x0 > x1 \<or> y0 > y1 then - 1 else 1) * minorSteps ?DY ?DX (Suc i))
              - fst (x0 + int i, y0 + (if x0 > x1 \<or> y0 > y1 then - 1 else 1) * minorSteps ?DY ?DX i)\<bar> \<le> 1 \<and>
            \<bar>snd (x0 + int (Suc i), y0 + (if x0 > x1 \<or> y0 > y1 then - 1 else 1) * minorSteps ?DY ?DX (Suc i))
              - snd (x0 + int i, y0 + (if x0 > x1 \<or> y0 > y1 then - 1 else 1) * minorSteps ?DY ?DX i)\<bar> \<le> 1"
        using st [of i] by auto
    qed
    then show ?thesis unfolding bresenham_closed_form if_P [OF True] by simp
  next
    case False
    let ?xs = "if x0 > x1 \<and> (y0 < y1 \<or> (y0 > y1 \<and> ?DX < ?DY)) then - 1 else 1 :: int"
    let ?ys = "if y0 > y1 then - 1 else 1 :: int"
    have "eightConnected (map (\<lambda>i. (x0 + ?xs * minorSteps ?DX ?DY i, y0 + int i * ?ys))
            [0..<Suc (nat ?DY)])"
    proof (cases "y1 = y0")
      case True
      then show ?thesis by simp
    next
      case ny: False
      have st: "\<bar>minorSteps ?DX ?DY (Suc k) - minorSteps ?DX ?DY k\<bar> \<le> 1" for k
        using False ny by (intro minorSteps_step) auto
      show ?thesis
      proof (rule eightConnected_map_upt)
        fix i
        show "\<bar>fst (x0 + ?xs * minorSteps ?DX ?DY (Suc i), y0 + int (Suc i) * ?ys)
                - fst (x0 + ?xs * minorSteps ?DX ?DY i, y0 + int i * ?ys)\<bar> \<le> 1 \<and>
              \<bar>snd (x0 + ?xs * minorSteps ?DX ?DY (Suc i), y0 + int (Suc i) * ?ys)
                - snd (x0 + ?xs * minorSteps ?DX ?DY i, y0 + int i * ?ys)\<bar> \<le> 1"
          using st [of i] by auto
      qed
    qed
    then show ?thesis unfolding bresenham_closed_form if_not_P [OF False] by simp
  qed
qed

lemma bresenham_last_point:
  "\<exists>ps. bresenhamLineGenerator x0 y0 x1 y1 = Inr ps \<and>
     last ps =
       (if x1 \<noteq> x0 \<and> \<bar>y1 - y0\<bar> < \<bar>x1 - x0\<bar>
        then (x0 + \<bar>x1 - x0\<bar>, if x0 > x1 \<and> y0 \<le> y1 then y0 - \<bar>y1 - y0\<bar> else y1)
        else (if x0 > x1 \<and> y0 > y1 \<and> \<bar>x1 - x0\<bar> = \<bar>y1 - y0\<bar> then x0 + \<bar>x1 - x0\<bar> else x1, y1))"
proof -
  let ?DX = "\<bar>x1 - x0\<bar>" and ?DY = "\<bar>y1 - y0\<bar>"
  show ?thesis
  proof (cases "x1 \<noteq> x0 \<and> ?DY < ?DX")
    case True
    then have e: "minorSteps ?DY ?DX (nat ?DX) = ?DY" by (intro minorSteps_end) auto
    show ?thesis
      unfolding bresenham_closed_form if_P [OF True]
      using True by (auto simp add: e)
  next
    case False
    show ?thesis
    proof (cases "y1 = y0")
      case True
      with False have "x1 = x0" by auto
      with True show ?thesis
        unfolding bresenham_closed_form if_not_P [OF False] by (simp add: minorSteps_def)
    next
      case ny: False
      then have e: "minorSteps ?DX ?DY (nat ?DY) = ?DX" by (intro minorSteps_end) auto
      show ?thesis
        unfolding bresenham_closed_form if_not_P [OF False]
        using False ny by (auto simp add: e)
    qed
  qed
qed

lemma bresenham_reaches_end_iff:
  "\<exists>ps. bresenhamLineGenerator x0 y0 x1 y1 = Inr ps \<and>
     (last ps = (x1, y1)) =
       (x0 \<le> x1 \<or> (\<bar>x1 - x0\<bar> \<le> \<bar>y1 - y0\<bar> \<and> (y0 < y1 \<or> \<bar>x1 - x0\<bar> < \<bar>y1 - y0\<bar>)))"
proof -
  obtain ps where ps: "bresenhamLineGenerator x0 y0 x1 y1 = Inr ps"
    "last ps =
       (if x1 \<noteq> x0 \<and> \<bar>y1 - y0\<bar> < \<bar>x1 - x0\<bar>
        then (x0 + \<bar>x1 - x0\<bar>, if x0 > x1 \<and> y0 \<le> y1 then y0 - \<bar>y1 - y0\<bar> else y1)
        else (if x0 > x1 \<and> y0 > y1 \<and> \<bar>x1 - x0\<bar> = \<bar>y1 - y0\<bar> then x0 + \<bar>x1 - x0\<bar> else x1, y1))"
    using bresenham_last_point by blast
  have "(last ps = (x1, y1)) =
       (x0 \<le> x1 \<or> (\<bar>x1 - x0\<bar> \<le> \<bar>y1 - y0\<bar> \<and> (y0 < y1 \<or> \<bar>x1 - x0\<bar> < \<bar>y1 - y0\<bar>)))"
    unfolding ps(2) by (auto split: if_splits)
  with ps(1) show ?thesis by blast
qed

text \<open>
  Claim C1.  Consecutive points always differ by at most one in each coordinate
  (\<open>bresenham_eight_connected\<close>), but the generator does not always end at \<open>(x1, y1)\<close>
  (\<open>bresenham_reaches_end_iff\<close>).  On a shallow line that runs leftwards (\<open>x0 > x1\<close>,
  \<open>|y1 - y0| < |x1 - x0|\<close>) the x-coordinate is advanced by \<^verbatim>\<open>yStep\<close>, which is \<open>+1\<close>
  whenever the slope is below one, so the line leaves the start point in the opposite
  direction; on the exact diagonal towards smaller \<open>x\<close> and \<open>y\<close> \<^verbatim>\<open>xStep\<close> is \<open>+1\<close> as
  well.  The theorem evaluates one input of each kind.
\<close>

theorem bresenham_leftward_misses_end:
  "bresenhamLineGenerator 5 0 0 0 = Inr [(5, 0), (6, 0), (7, 0), (8, 0), (9, 0), (10, 0)] \<and>
   bresenhamLineGenerator 1 1 0 0 = Inr [(1, 1), (2, 0)]"
  by (simp add: bresenhamLineGenerator_def lineSlope_Inr eval_nat_numeral)

section \<open>The corner resolver\<close>

lemma wrap32_id: "- 2147483648 \<le> v \<Longrightarrow> v < 2147483648 \<Longrightarrow> wrap32 v = v"
  by (simp add: wrap32_def)

lemma wrap32_high: "2147483648 \<le> v \<Longrightarrow> v < 4294967296 \<Longrightarrow> wrap32 v < 0"
proof -
  assume a: "2147483648 \<le> v" "v < 4294967296"
  have "v + 2147483648 = 4294967296 * 1 + (v - 2147483648)" by simp
  moreover have "0 \<le> v - 2147483648" "v - 2147483648 < 4294967296" using a by simp_all
  ultimately have "(v + 2147483648) mod 4294967296 = v - 2147483648"
    by (rule int_mod_pos_eq)
  then show ?thesis using a by (simp add: wrap32_def)
qed

lemma powr_half_lt_80: "0 \<le> s \<Longrightarrow> (real_of_int s powr (1 / 2) < 80) = (s < 6400)"
proof -
  assume s: "0 \<le> s"
  then have nn: "0 \<le> real_of_int s" by simp
  have "real_of_int s powr (1 / 2) = sqrt (real_of_int s)"
    by (rule powr_half_sqrt [OF nn])
  moreover have "(sqrt (real_of_int s) < 80) = (real_of_int s < 6400)"
    using real_sqrt_less_iff [of "real_of_int s" 6400] by simp
  moreover have "(real_of_int s < 6400) = (s < 6400)"
    using of_int_less_iff [where ?'a = real, of s 6400] by simp
  ultimately show ?thesis by simp
qed

lemma sqrt_lt_80: "0 \<le> s \<Longrightarrow> (sqrt (real_of_int s) < 80) = (s < 6400)"
proof -
  assume s: "0 \<le> s"
  have "(sqrt (real_of_int s) < 80) = (real_of_int s < 6400)"
    using real_sqrt_less_iff [of "real_of_int s" 6400] by simp
  moreover have "(real_of_int s < 6400) = (s < 6400)"
    using of_int_less_iff [where ?'a = real, of s 6400] by simp
  ultimately show ?thesis by simp
qed

text \<open>The test \<^verbatim>\<open>computeDistance(a, b) < 80.0\<close> in integer arithmetic.\<close>

lemma short_test_code:
  "(case computeDistance p1 p2 of None \<Rightarrow> False | Some d \<Rightarrow> d < 80) =
     (0 \<le> wrap32 (wrap32 ((wrap32 (fst p2 - fst p1))\<^sup>2) + wrap32 ((wrap32 (snd p2 - snd p1))\<^sup>2)) \<and>
      wrap32 (wrap32 ((wrap32 (fst p2 - fst p1))\<^sup>2) + wrap32 ((wrap32 (snd p2 - snd p1))\<^sup>2)) < 6400)"
proof -
  let ?s = "wrap32 (wrap32 ((wrap32 (fst p2 - fst p1))\<^sup>2) + wrap32 ((wrap32 (snd p2 - snd p1))\<^sup>2))"
  show ?thesis
  proof (cases "?s < 0")
    case True
    then show ?thesis by (simp add: computeDistance_def Let_def)
  next
    case False
    then have "0 \<le> ?s" by simp
    from powr_half_lt_80 [OF this] False show ?thesis
      by (simp add: computeDistance_def Let_def)
  qed
qed

lemma square_le_46340:
  fixes d :: int
  assumes "\<bar>d\<bar> \<le> 46340"
  shows "0 \<le> d\<^sup>2" "d\<^sup>2 \<le> 2147395600"
proof -
  show "0 \<le> d\<^sup>2" by simp
  have "d\<^sup>2 \<le> 46340\<^sup>2"
    using assms abs_le_square_iff [of d 46340] by simp
  then show "d\<^sup>2 \<le> 2147395600" by simp
qed

text \<open>Without wrap-around the test is the comparison of the squared length with 6400.\<close>

lemma short_test_in_range:
  assumes "\<bar>fst p2 - fst p1\<bar> \<le> 46340" "\<bar>snd p2 - snd p1\<bar> \<le> 46340"
  shows "(case computeDistance p1 p2 of None \<Rightarrow> False | Some d \<Rightarrow> d < 80) =
           ((fst p2 - fst p1)\<^sup>2 + (snd p2 - snd p1)\<^sup>2 < 6400)"
proof -
  let ?dx = "fst p2 - fst p1" and ?dy = "snd p2 - snd p1"
  have wx: "wrap32 ?dx = ?dx" using assms(1) by (intro wrap32_id) auto
  have wy: "wrap32 ?dy = ?dy" using assms(2) by (intro wrap32_id) auto
  note sx = square_le_46340 [OF assms(1)] and sy = square_le_46340 [OF assms(2)]
  have wxx: "wrap32 (?dx\<^sup>2) = ?dx\<^sup>2" by (intro wrap32_id) (use sx in linarith)+
  have wyy: "wrap32 (?dy\<^sup>2) = ?dy\<^sup>2" by (intro wrap32_id) (use sy in linarith)+
  show ?thesis
  proof (cases "?dx\<^sup>2 + ?dy\<^sup>2 < 2147483648")
    case True
    have "wrap32 (?dx\<^sup>2 + ?dy\<^sup>2) = ?dx\<^sup>2 + ?dy\<^sup>2"
      by (intro wrap32_id) (use True sx(1) sy(1) in linarith)+
    then show ?thesis
      unfolding short_test_code wx wy wxx wyy using sx(1) sy(1) by auto
  next
    case False
    have "wrap32 (?dx\<^sup>2 + ?dy\<^sup>2) < 0"
      by (intro wrap32_high) (use False sx(2) sy(2) in linarith)+
    then show ?thesis
      unfolding short_test_code wx wy wxx wyy using False by auto
  qed
qed

lemma matchingSides_code:
  "matchingSides poly =
     filter (\<lambda>i. 0 \<le> wrap32 (wrap32 ((wrap32 (fst (poly ! ((i + 1) mod length poly)) - fst (poly ! i)))\<^sup>2)
                          + wrap32 ((wrap32 (snd (poly ! ((i + 1) mod length poly)) - snd (poly ! i)))\<^sup>2))
               \<and> wrap32 (wrap32 ((wrap32 (fst (poly ! ((i + 1) mod length poly)) - fst (poly ! i)))\<^sup>2)
                          + wrap32 ((wrap32 (snd (poly ! ((i + 1) mod length poly)) - snd (poly ! i)))\<^sup>2))
                   < 6400)
       [0..<length poly]"
  unfolding matchingSides_def Let_def short_test_code by simp

lemma pixelRange_nth:
  assumes "pixelRange poly" "i < length poly"
  shows "0 \<le> fst (poly ! i)" "fst (poly ! i) \<le> 46340" "0 \<le> snd (poly ! i)" "snd (poly ! i) \<le> 46340"
  using assms unfolding pixelRange_def list_all_length by auto

lemma matchingSides_shortEdges:
  assumes "pixelRange poly"
  shows "matchingSides poly = shortEdges_spec poly"
proof -
  have "(case computeDistance (poly ! i) (poly ! ((i + 1) mod length poly)) of
           None \<Rightarrow> False | Some d \<Rightarrow> d < 80) =
        (edgeLength_spec (edgeOf_spec poly i) < 80)"
    if i: "i \<in> set [0..<length poly]" for i
  proof -
    have a: "i < length poly" using i by simp
    then have "0 < length poly" by linarith
    then have b: "(i + 1) mod length poly < length poly" by simp
    note ra = pixelRange_nth [OF assms a] and rb = pixelRange_nth [OF assms b]
    have "\<bar>fst (poly ! ((i + 1) mod length poly)) - fst (poly ! i)\<bar> \<le> 46340"
         "\<bar>snd (poly ! ((i + 1) mod length poly)) - snd (poly ! i)\<bar> \<le> 46340"
      using ra rb by linarith+
    from short_test_in_range [OF this] show ?thesis
      by (simp add: edgeLength_spec_def edgeOf_spec_def sqrt_lt_80
          del: of_int_add of_int_power of_int_diff)
  qed
  then show ?thesis
    unfolding matchingSides_def shortEdges_spec_def Let_def
    by (intro filter_cong) auto
qed

lemma matchingSides_bound: "s \<in> set (matchingSides poly) \<Longrightarrow> s < length poly"
  by (simp add: matchingSides_def Let_def)

lemma getitem_nth: "i < length xs \<Longrightarrow> getitem xs (int i) = Inr (xs ! i)"
  by (simp add: getitem_def npIndex_def)

lemma getitem_out: "length xs \<le> i \<Longrightarrow> getitem xs (int i) = Inl IndexError"
  by (simp add: getitem_def npIndex_def)

lemma cornerOfPair_spec:
  assumes "0 < length poly" "\<forall>s\<in>set sides. s < length poly" "3 \<le> length sides" "i < length sides"
  shows "cornerOfPair poly sides i (sides ! i) =
     Inr (if sharesEndpoint_spec (edgeOf_spec poly (sides ! i)) (edgeOf_spec poly (sides ! ((i + 1) mod 3)))
          then Some (sharedPoint_spec (edgeOf_spec poly (sides ! i)) (edgeOf_spec poly (sides ! ((i + 1) mod 3))))
          else None)"
proof -
  have j: "(i + 1) mod 3 < length sides" using assms(3) by simp
  have a: "sides ! i < length poly" using assms(2,4) by simp
  have b: "sides ! ((i + 1) mod 3) < length poly" using assms(2) j by simp
  have m: "(n + 1) mod length poly < length poly" for n using assms(1) by simp
  show ?thesis
    unfolding cornerOfPair_def Let_def
    using getitem_nth [OF a] getitem_nth [OF b] getitem_nth [OF j]
      getitem_nth [OF m [of "sides ! i"]] getitem_nth [OF m [of "sides ! ((i + 1) mod 3)"]]
    by (auto simp add: sharesEndpoint_spec_def sharedPoint_spec_def edgeOf_spec_def)
qed

lemma lowerSideMiddle_spec:
  assumes "0 < length poly" "\<forall>s\<in>set sides. s < length poly" "3 \<le> length sides"
    and "pixelRange poly"
  shows "lowerSideMiddle poly sides i = Inr (midpoint_spec (edgeOf_spec poly (sides ! ((i + 2) mod 3))))"
proof -
  have j: "(i + 2) mod 3 < length sides" using assms(3) by simp
  have b: "sides ! ((i + 2) mod 3) < length poly" using assms(2) j by simp
  have m: "(n + 1) mod length poly < length poly" for n using assms(1) by simp
  note rb = pixelRange_nth [OF assms(4) b]
    and rm = pixelRange_nth [OF assms(4) m [of "sides ! ((i + 2) mod 3)"]]
  have wx: "wrap32 (fst (poly ! (sides ! ((i + 2) mod 3)))
              + fst (poly ! ((sides ! ((i + 2) mod 3) + 1) mod length poly))) =
            fst (poly ! (sides ! ((i + 2) mod 3)))
              + fst (poly ! ((sides ! ((i + 2) mod 3) + 1) mod length poly))"
    by (intro wrap32_id) (use rb rm in linarith)+
  have wy: "wrap32 (snd (poly ! (sides ! ((i + 2) mod 3)))
              + snd (poly ! ((sides ! ((i + 2) mod 3) + 1) mod length poly))) =
            snd (poly ! (sides ! ((i + 2) mod 3)))
              + snd (poly ! ((sides ! ((i + 2) mod 3) + 1) mod length poly))"
    by (intro wrap32_id) (use rb rm in linarith)+
  show ?thesis
    unfolding lowerSideMiddle_def Let_def
    using getitem_nth [OF b] getitem_nth [OF j] getitem_nth [OF m [of "sides ! ((i + 2) mod 3)"]]
    by (simp add: midpoint_spec_def edgeOf_spec_def wx [simplified] wy [simplified])
qed

lemma resolveLoop_spec:
  assumes "0 < length poly" "\<forall>s\<in>set sides. s < length poly" "3 \<le> length sides"
    and "pixelRange poly"
  shows "k \<le> length sides \<Longrightarrow>
    resolveLoop poly sides (zip [k..<length sides] (drop k sides)) =
      Inr (case find (\<lambda>i. sharesEndpoint_spec (edgeOf_spec poly (sides ! i))
                          (edgeOf_spec poly (sides ! ((i + 1) mod 3)))) [k..<length sides] of
           None \<Rightarrow> None
         | Some i \<Rightarrow>
             Some (sharedPoint_spec (edgeOf_spec poly (sides ! i))
                     (edgeOf_spec poly (sides ! ((i + 1) mod 3))),
                   midpoint_spec (edgeOf_spec poly (sides ! ((i + 2) mod 3)))))"
proof (induction "length sides - k" arbitrary: k)
  case 0
  then show ?case by simp
next
  case (Suc n)
  then have lt: "k < length sides" by simp
  have u: "[k..<length sides] = k # [Suc k..<length sides]"
    using lt by (simp add: upt_conv_Cons)
  have d: "drop k sides = sides ! k # drop (Suc k) sides"
    using lt by (simp add: Cons_nth_drop_Suc)
  have ih: "resolveLoop poly sides (zip [Suc k..<length sides] (drop (Suc k) sides)) =
      Inr (case find (\<lambda>i. sharesEndpoint_spec (edgeOf_spec poly (sides ! i))
                          (edgeOf_spec poly (sides ! ((i + 1) mod 3)))) [Suc k..<length sides] of
           None \<Rightarrow> None
         | Some i \<Rightarrow>
             Some (sharedPoint_spec (edgeOf_spec poly (sides ! i))
                     (edgeOf_spec poly (sides ! ((i + 1) mod 3))),
                   midpoint_spec (edgeOf_spec poly (sides ! ((i + 2) mod 3)))))"
    using Suc(1) [of "Suc k"] Suc(2) lt by simp
  show ?case
    unfolding u d
    by (simp add: cornerOfPair_spec [OF assms(1-3) lt] lowerSideMiddle_spec [OF assms] ih
        del: upt_Suc)
qed

text \<open>
  Claim C2, as stated for every five-vertex polygon, fails in two ways.  The first
  polygon has exactly two short sides; they meet in \<open>(1340, 130)\<close>, the first pair is
  found to share that point, and the resolver then raises \<^verbatim>\<open>IndexError\<close> instead of
  returning it.  The second polygon has sides of length 65536, whose squares wrap to
  zero in \<^verbatim>\<open>int32\<close>: the code takes three of them for short and returns a corner, although
  no edge has a Euclidean length below 80.
\<close>

theorem corner_resolver_outside_domain:
  "cornerOfPair [(1300, 100), (1340, 130), (1380, 100), (1400, 300), (1280, 300)]
     (matchingSides [(1300, 100), (1340, 130), (1380, 100), (1400, 300), (1280, 300)]) 0 0
     = Inr (Some (1340, 130)) \<and>
   resolveCorner [(1300, 100), (1340, 130), (1380, 100), (1400, 300), (1280, 300)]
     = Inl IndexError \<and>
   matchingSides [(0, 0), (65536, 0), (65536, 65536), (0, 65536), (0, 100)] = [0, 1, 2] \<and>
   shortEdges_spec [(0, 0), (65536, 0), (65536, 65536), (0, 65536), (0, 100)] = [] \<and>
   resolveCorner [(0, 0), (65536, 0), (65536, 65536), (0, 65536), (0, 100)]
     = Inr (Some ((65536, 0), (32768, 65536))) \<and>
   cornerResolver_spec [(0, 0), (65536, 0), (65536, 65536), (0, 65536), (0, 100)] = None"
proof -
  let ?P = "[(1300, 100), (1340, 130), (1380, 100), (1400, 300), (1280, 300)] :: point list"
  let ?Q = "[(0, 0), (65536, 0), (65536, 65536), (0, 65536), (0, 100)] :: point list"
  have p: "matchingSides ?P = [0, 1]"
    by (simp add: matchingSides_code upt_conv_Cons wrap32_id)
  have w: "wrap32 4294967296 = 0" "wrap32 4281870096 = - 13097200"
    by (simp_all add: wrap32_def)
  have q: "matchingSides ?Q = [0, 1, 2]"
    by (simp add: matchingSides_code upt_conv_Cons wrap32_id w)
  have s: "shortEdges_spec ?Q = []"
    by (simp add: shortEdges_spec_def edgeLength_spec_def edgeOf_spec_def upt_conv_Cons
        sqrt_lt_80 [of 4294967296, simplified] sqrt_lt_80 [of 4281870096, simplified]
        sqrt_lt_80 [of 10000, simplified])
  have "cornerOfPair ?P [0, 1] 0 0 = Inr (Some (1340, 130))"
    by (simp add: cornerOfPair_def getitem_def npIndex_def)
  moreover have "resolveCorner ?P = Inl IndexError"
    by (simp add: resolveCorner_def p upt_conv_Cons cornerOfPair_def lowerSideMiddle_def
        getitem_def npIndex_def)
  moreover have "resolveCorner ?Q = Inr (Some ((65536, 0), (32768, 65536)))"
    by (simp add: resolveCorner_def q upt_conv_Cons cornerOfPair_def lowerSideMiddle_def
        getitem_def npIndex_def wrap32_id)
  moreover have "cornerResolver_spec ?Q = None"
    by (simp add: cornerResolver_spec_def s)
  ultimately show ?thesis
    by (simp only: p q s simp_thms)
qed

text \<open>
  Claim C2, amended.  On a five-vertex polygon whose coordinates lie in \<open>0 \<dots> 46340\<close>
  (no \<^verbatim>\<open>int32\<close> wrap-around) and which has at least three short sides, or none, the
  code's list of short sides is the list of edges of Euclidean length below 80, and the
  resolver returns exactly what the specification's procedure returns: the shared point of
  the first cyclically consecutive pair (indices mod 3) of short edges with a common
  endpoint, and the integer-averaged midpoint of the short edge two places ahead; nothing
  when no pair matches.
\<close>

theorem corner_resolver_first_match:
  assumes "length poly = 5" and "pixelRange poly"
    and "length (matchingSides poly) \<noteq> 1" and "length (matchingSides poly) \<noteq> 2"
  shows "matchingSides poly = shortEdges_spec poly \<and>
         resolveCorner poly = Inr (cornerResolver_spec poly)"
proof (cases "matchingSides poly = []")
  case True
  then show ?thesis
    using matchingSides_shortEdges [OF assms(2)]
    by (simp add: resolveCorner_def cornerResolver_spec_def)
next
  case False
  then have "length (matchingSides poly) \<noteq> 0" by simp
  with assms have three: "3 \<le> length (matchingSides poly)" by arith
  have pos: "0 < length poly" using assms(1) by simp
  have bnd: "\<forall>s\<in>set (matchingSides poly). s < length poly"
    using matchingSides_bound by blast
  have eq: "matchingSides poly = shortEdges_spec poly"
    by (rule matchingSides_shortEdges [OF assms(2)])
  show ?thesis
    using resolveLoop_spec [OF pos bnd [unfolded eq] three [unfolded eq] assms(2), of 0]
    by (simp add: resolveCorner_def cornerResolver_spec_def Let_def eq)
qed

lemma notched_sides:
  "matchingSides [(1300, 100), (1340, 130), (1380, 100), (1370, 300), (1310, 300)] = [0, 1, 3]"
  by (simp add: matchingSides_code upt_conv_Cons wrap32_id)

theorem corner_resolver_first_match_witness:
  "pixelRange [(1300, 100), (1340, 130), (1380, 100), (1370, 300), (1310, 300)] \<and>
   resolveCorner [(1300, 100), (1340, 130), (1380, 100), (1370, 300), (1310, 300)]
     = Inr (cornerResolver_spec [(1300, 100), (1340, 130), (1380, 100), (1370, 300), (1310, 300)]) \<and>
   cornerResolver_spec [(1300, 100), (1340, 130), (1380, 100), (1370, 300), (1310, 300)]
     = Some ((1340, 130), (1340, 300))"
proof -
  let ?P = "[(1300, 100), (1340, 130), (1380, 100), (1370, 300), (1310, 300)] :: point list"
  have r: "pixelRange ?P" by (simp add: pixelRange_def)
  have s: "shortEdges_spec ?P = [0, 1, 3]"
    using notched_sides matchingSides_shortEdges [OF r] by simp
  have "cornerResolver_spec ?P = Some ((1340, 130), (1340, 300))"
    by (simp add: cornerResolver_spec_def s upt_conv_Cons sharesEndpoint_spec_def
        edgeOf_spec_def sharedPoint_spec_def midpoint_spec_def)
  then show ?thesis
    using corner_resolver_first_match [OF _ r] notched_sides r by simp
qed

section \<open>Exceptions raised by frame processing\<close>

text \<open>
  With one or two short sides the reads \<^verbatim>\<open>matchingSides[(loopIndex + 1) % 3]\<close> and
  \<^verbatim>\<open>matchingSides[(loopIndex + 2) % 3]\<close> leave the list: the resolver raises
  \<^verbatim>\<open>IndexError\<close>, whether or not the two sides meet.
\<close>

lemma resolveLoop_one_side:
  assumes "0 < length poly" "a < length poly"
  shows "resolveLoop poly [a] [(0, a)] = Inl IndexError"
proof -
  have m: "(a + 1) mod length poly < length poly" using assms(1) by simp
  show ?thesis
    using getitem_nth [OF assms(2)] getitem_nth [OF m] getitem_out [of "[a]" 1]
    by (simp add: cornerOfPair_def Let_def)
qed

lemma resolveLoop_two_sides:
  assumes "0 < length poly" "a < length poly" "b < length poly"
  shows "resolveLoop poly [a, b] [(0, a), (1, b)] = Inl IndexError"
proof -
  have m: "(n + 1) mod length poly < length poly" for n using assms(1) by simp
  have s1: "getitem [a, b] 1 = Inr b" using getitem_nth [of 1 "[a, b]"] by simp
  have s2: "getitem [a, b] 2 = Inl IndexError" using getitem_out [of "[a, b]" 2] by simp
  obtain r where r: "cornerOfPair poly [a, b] 0 a = Inr r"
    using getitem_nth [OF assms(2)] getitem_nth [OF assms(3)] getitem_nth [OF m [of a]]
      getitem_nth [OF m [of b]] s1
    by (simp add: cornerOfPair_def Let_def)
  have l: "lowerSideMiddle poly [a, b] 0 = Inl IndexError"
    using s2 by (simp add: lowerSideMiddle_def Let_def)
  have c: "cornerOfPair poly [a, b] (Suc 0) b = Inl IndexError"
  proof -
    have i: "int ((Suc 0 + 1) mod 3) = 2" by simp
    show ?thesis
      unfolding cornerOfPair_def Let_def i
      using getitem_nth [OF assms(3)] getitem_nth [OF m [of b]] s2
      by simp
  qed
  show ?thesis
    by (cases r) (simp_all add: r l c)
qed

lemma resolveCorner_too_few_sides:
  assumes "0 < length poly"
    and "length (matchingSides poly) = 1 \<or> length (matchingSides poly) = 2"
  shows "resolveCorner poly = Inl IndexError"
proof -
  from assms(2) consider a where "matchingSides poly = [a]"
    | a b where "matchingSides poly = [a, b]"
    by (auto simp add: length_Suc_conv eval_nat_numeral)
  then show ?thesis
  proof cases
    case 1
    then have "a < length poly" using matchingSides_bound [of a poly] by simp
    then show ?thesis
      using resolveLoop_one_side [OF assms(1)] 1 by (simp add: resolveCorner_def)
  next
    case 2
    then have "a < length poly" "b < length poly"
      using matchingSides_bound [of a poly] matchingSides_bound [of b poly] by simp_all
    then show ?thesis
      using resolveLoop_two_sides [OF assms(1)] 2 by (simp add: resolveCorner_def upt_conv_Cons)
  qed
qed

text \<open>
  An axis of at most five points has \<^verbatim>\<open>cycleJump = 0\<close>, and \<^verbatim>\<open>range\<close> refuses a zero
  step.
\<close>

lemma cycleJumpOf_div: "0 \<le> L \<Longrightarrow> cycleJumpOf L = (39 * L) div 200"
proof -
  assume L: "0 \<le> L"
  have "real_of_int L / 10 * 1.95 = real_of_int (39 * L) / real_of_int 200" by simp
  then have "\<lfloor>real_of_int L / 10 * 1.95\<rfloor> = (39 * L) div 200"
    by (simp only: floor_divide_of_int_eq)
  then show ?thesis using L by (simp add: cycleJumpOf_def pyInt_def)
qed

lemma decodeMarker_short_axis:
  "length markerAxis \<le> 5 \<Longrightarrow> decodeMarker gray markerAxis = Inl ValueError"
proof -
  assume "length markerAxis \<le> 5"
  then have "cycleJumpOf (int (length markerAxis)) = 0"
    by (simp add: cycleJumpOf_div)
  then show ?thesis by (simp add: decodeMarker_def pyRange_def)
qed

lemma one_short_side:
  "matchingSides [(1300, 100), (1350, 110), (1500, 300), (1400, 500), (1250, 300)] = [0]"
  by (simp add: matchingSides_code upt_conv_Cons wrap32_id)

lemma sliver_sides:
  "matchingSides [(1300, 80), (1340, 100), (1370, 90), (1312, 112), (1300, 300)] = [0, 1, 2]"
  by (simp add: matchingSides_code upt_conv_Cons wrap32_id)

lemma sliver_corner:
  "resolveCorner [(1300, 80), (1340, 100), (1370, 90), (1312, 112), (1300, 300)]
     = Inr (Some ((1340, 100), (1341, 101)))"
  by (simp add: resolveCorner_def sliver_sides upt_conv_Cons cornerOfPair_def
      lowerSideMiddle_def getitem_def npIndex_def wrap32_id)

lemma sliver_axis: "bresenhamLineGenerator 1340 100 1341 101 = Inr [(1340, 100), (1341, 101)]"
  by (simp add: bresenhamLineGenerator_def lineSlope_Inr eval_nat_numeral)

text \<open>
  Claim C3.  Frame processing can raise.  A pentagon with a single short side makes the
  resolver raise \<^verbatim>\<open>IndexError\<close> instead of skipping the polygon; a pentagon whose corner
  lies next to the midpoint of its third short side gives a two-point axis, a zero stride
  and \<^verbatim>\<open>ValueError\<close>.  Neither frame yields an empty set of rows.
\<close>

theorem frame_processing_raises:
  "detectAndLabelMarkers gray currentFrame
     [[(1300, 100), (1350, 110), (1500, 300), (1400, 500), (1250, 300)]] = Inl IndexError \<and>
   detectAndLabelMarkers gray currentFrame
     [[(1300, 80), (1340, 100), (1370, 90), (1312, 112), (1300, 300)]] = Inl ValueError"
  by (simp add: detectAndLabelMarkers_def processPolygon_def resolveCorner_def one_short_side
      cornerOfPair_def getitem_def npIndex_def sliver_corner [unfolded resolveCorner_def]
      readMarker_def sliver_axis decodeMarker_short_axis)

text \<open>
  Claim C4.  The two-point axis from \<open>(1340, 100)\<close> to \<open>(1341, 101)\<close> satisfies the claim's
  condition (its length is at least ten times its stride, which is zero), and decoding
  it raises \<^verbatim>\<open>ValueError\<close>: the loop does not complete and there is no identifier.
\<close>

theorem short_axis_zero_stride:
  "10 * cycleJumpOf (int (length [(1340, 100), (1341, 101) :: point]))
      \<le> int (length [(1340, 100), (1341, 101) :: point]) \<and>
   bresenhamLineGenerator 1340 100 1341 101 = Inr [(1340, 100), (1341, 101)] \<and>
   decodeMarker gray [(1340, 100), (1341, 101)] = Inl ValueError"
  by (simp add: cycleJumpOf_div sliver_axis decodeMarker_short_axis)

section \<open>The ring decoder: samples, bits and identifiers\<close>

lemma zip_upt_Cons:
  "zip [k..<k + Suc n] (c # cs) = (k, c) # zip [Suc k..<Suc k + n] cs"
  by (simp add: upt_conv_Cons del: upt_Suc)

lemma sampleLoop_collect:
  "sampleLoop gray markerAxis centres k acc =
     bindE (collectE (map (\<lambda>(j, c). intensityAt gray markerAxis (tempIndexOf j c))
                        (zip [k..<k + length centres] centres)))
       (\<lambda>vs. Inr (acc @ concat (map slotBit vs)))"
proof (induction centres arbitrary: k acc)
  case Nil
  show ?case by simp
next
  case (Cons c cs)
  have z: "zip [k..<k + length (c # cs)] (c # cs) = (k, c) # zip [Suc k..<Suc k + length cs] cs"
    using zip_upt_Cons [of k "length cs" c cs] by simp
  show ?case
  proof (cases "intensityAt gray markerAxis (tempIndexOf k c)")
    case (Inl e)
    then show ?thesis unfolding z by simp
  next
    case (Inr v)
    show ?thesis
    proof (cases "collectE (map (\<lambda>(j, c). intensityAt gray markerAxis (tempIndexOf j c))
                        (zip [Suc k..<Suc k + length cs] cs))")
      case l: (Inl e)
      then show ?thesis unfolding z using Inr Cons [of "Suc k" "acc @ slotBit v"] by simp
    next
      case r: (Inr vs)
      then show ?thesis unfolding z using Inr Cons [of "Suc k" "acc @ slotBit v"] by simp
    qed
  qed
qed


lemma collectE_all_Inr: "collectE (map Inr vs) = Inr vs"
  by (induction vs) simp_all





lemma rangeUp_length_le:
  "0 < c \<Longrightarrow> stop \<le> i + int n * c \<Longrightarrow> length (rangeUp i stop c) \<le> n"
proof (induction n arbitrary: i)
  case 0
  then show ?case by (simp add: rangeUp.simps [of i])
next
  case (Suc n)
  have "stop \<le> (i + c) + int n * c" using Suc.prems by (simp add: algebra_simps)
  from Suc.IH [OF Suc.prems(1) this] show ?case
    by (simp add: rangeUp.simps [of i])
qed

lemma rangeUp_length_gt:
  "0 < c \<Longrightarrow> i + int n * c < stop \<Longrightarrow> n < length (rangeUp i stop c)"
proof (induction n arbitrary: i)
  case 0
  then show ?case by (simp add: rangeUp.simps [of i])
next
  case (Suc n)
  have a: "(i + c) + int n * c < stop" using Suc.prems by (simp add: algebra_simps)
  have "0 \<le> int n * c" using Suc.prems(1) by simp
  with a Suc.prems(1) have b: "i < stop" by linarith
  from Suc.IH [OF Suc.prems(1) a] b Suc.prems(1) show ?case
    by (simp add: rangeUp.simps [of i])
qed

lemma rangeUp_members:
  "0 < c \<Longrightarrow> x \<in> set (rangeUp i stop c) \<Longrightarrow> i \<le> x \<and> x < stop"
proof (induction i stop c rule: rangeUp.induct)
  case (1 i stop step)
  show ?case
  proof (cases "i < stop")
    case True
    with 1 show ?thesis by (auto simp add: rangeUp.simps [of i])
  next
    case False
    with 1 show ?thesis by (simp add: rangeUp.simps [of i])
  qed
qed

lemma div200:
  "200 * (a div 200) \<le> (a::int)" "a < 200 * (a div 200) + 200"
proof -
  have "a = 200 * (a div 200) + a mod 200" by simp
  moreover have "0 \<le> a mod 200" "a mod 200 < 200" by simp_all
  ultimately show "200 * (a div 200) \<le> a" "a < 200 * (a div 200) + 200" by linarith+
qed

lemma div200_ge: "200 * k \<le> (a::int) \<Longrightarrow> k \<le> a div 200"
  using zdiv_mono1 [of "200 * k" a 200] by simp

lemma cycleJump_facts:
  assumes "6 \<le> L"
  shows "0 < cycleJumpOf L" "cycleJumpOf L < L" "L \<le> 10 * cycleJumpOf L" "5 * cycleJumpOf L < L"
    "L \<noteq> 10 \<Longrightarrow> L \<le> 9 * cycleJumpOf L" "L = 10 \<Longrightarrow> 9 * cycleJumpOf L < L"
    "26 \<le> L \<Longrightarrow> L \<le> 6 * cycleJumpOf L"
proof -
  define q where "q = 39 * L div 200"
  have c: "cycleJumpOf L = q" using assms by (simp add: cycleJumpOf_div q_def)
  have lo: "200 * q \<le> 39 * L" and hi: "39 * L < 200 * q + 200"
    unfolding q_def by (rule div200)+
  have q1: "1 \<le> q" unfolding q_def using assms by (intro div200_ge) simp
  show "0 < cycleJumpOf L" using q1 c by simp
  show "cycleJumpOf L < L" using lo c assms by linarith
  show "L \<le> 10 * cycleJumpOf L" using hi q1 c by linarith
  show "5 * cycleJumpOf L < L" using lo c assms by linarith
  show "9 * cycleJumpOf L < L" if "L = 10" using that by (simp add: cycleJumpOf_div)
  show "L \<le> 9 * cycleJumpOf L" if n: "L \<noteq> 10"
  proof (cases "L \<le> 9")
    case True
    then show ?thesis using q1 c by linarith
  next
    case False
    with n have l: "11 \<le> L" by simp
    have "2 \<le> q" unfolding q_def using l by (intro div200_ge) simp
    then show ?thesis using hi c by linarith
  qed
  show "L \<le> 6 * cycleJumpOf L" if l: "26 \<le> L"
  proof (cases "L \<le> 30")
    case True
    have "5 \<le> q" unfolding q_def using l by (intro div200_ge) simp
    then show ?thesis using True c by linarith
  next
    case False
    then have "6 \<le> q" unfolding q_def by (intro div200_ge) simp
    then show ?thesis using hi c by linarith
  qed
qed




lemma tempIndexOf_cases:
  "tempIndexOf k c =
     (if k = 0 then pyInt (real_of_int c * 0.9)
      else if k \<le> 4 then pyInt (real_of_int c * 0.85)
      else c)"
proof -
  have "(k \<in> set [1, 2, 3, 4]) = (1 \<le> k \<and> k \<le> 4)" by auto
  then show ?thesis unfolding tempIndexOf_def by auto
qed


lemma sample_count:
  assumes "6 \<le> L"
  shows "\<exists>centres. pyRange (cycleJumpOf L) L (cycleJumpOf L) = Inr centres \<and>
           5 \<le> length centres \<and> length centres \<le> 9 \<and>
           (length centres = 9) = (L = 10) \<and> (if 26 \<le> L then length centres = 5 else True) \<and>
           list_all (\<lambda>c. 0 < c \<and> c < L) centres"
proof -
  let ?c = "cycleJumpOf L"
  note f = cycleJump_facts [OF assms]
  have r: "pyRange ?c L ?c = Inr (rangeUp ?c L ?c)"
    using f(1) by (simp add: pyRange_def)
  have le9: "length (rangeUp ?c L ?c) \<le> 9"
    using rangeUp_length_le [OF f(1), of L ?c 9] f(3) by simp
  have ge5: "4 < length (rangeUp ?c L ?c)"
    using rangeUp_length_gt [OF f(1), of ?c 4 L] f(4) by simp
  have n9: "(length (rangeUp ?c L ?c) = 9) = (L = 10)"
  proof (cases "L = 10")
    case True
    then have "8 < length (rangeUp ?c L ?c)"
      using rangeUp_length_gt [OF f(1), of ?c 8 L] f(6) by simp
    with le9 True show ?thesis by simp
  next
    case False
    then have "length (rangeUp ?c L ?c) \<le> 8"
      using rangeUp_length_le [OF f(1), of L ?c 8] f(5) by simp
    with False show ?thesis by simp
  qed
  have n5: "length (rangeUp ?c L ?c) = 5" if "26 \<le> L"
  proof -
    have "length (rangeUp ?c L ?c) \<le> 5"
      using rangeUp_length_le [OF f(1), of L ?c 5] f(7) that by simp
    with ge5 show ?thesis by simp
  qed
  have m: "list_all (\<lambda>c. 0 < c \<and> c < L) (rangeUp ?c L ?c)"
  proof -
    have "0 < x \<and> x < L" if "x \<in> set (rangeUp ?c L ?c)" for x
      using rangeUp_members [OF f(1) that] f(1) by linarith
    then show ?thesis unfolding list_all_iff by blast
  qed
  show ?thesis using r le9 ge5 n9 n5 m by simp
qed

lemma decodeMarker_collect:
  "decodeMarker gray markerAxis =
     bindE (pyRange (cycleJumpOf (int (length markerAxis))) (int (length markerAxis))
              (cycleJumpOf (int (length markerAxis)))) (\<lambda>centres.
     bindE (collectE (map (\<lambda>(j, c). intensityAt gray markerAxis (tempIndexOf j c))
                        (zip [0..<length centres] centres))) (\<lambda>vs.
       identifierOfBits (concat (map slotBit vs))))"
proof -
  have "bindE (sampleLoop gray markerAxis centres 0 []) identifierOfBits =
        bindE (collectE (map (\<lambda>(j, c). intensityAt gray markerAxis (tempIndexOf j c))
                        (zip [0..<length centres] centres)))
          (\<lambda>vs. identifierOfBits (concat (map slotBit vs)))" for centres
    unfolding sampleLoop_collect [of gray markerAxis centres 0 "[]"]
    by (cases "collectE (map (\<lambda>(j, c). intensityAt gray markerAxis (tempIndexOf j c))
                        (zip [0..<length centres] centres))") simp_all
  then show ?thesis by (simp add: decodeMarker_def Let_def)
qed






section \<open>The reference offset\<close>

lemma six_point_axis: "bresenhamLineGenerator 0 0 0 5 = Inr [(0, 0), (0, 1), (0, 2), (0, 3), (0, 4), (0, 5)]"
  by (simp add: bresenhamLineGenerator_def lineSlope_Inr eval_nat_numeral)

lemma six_point_decode: "decodeMarker \<lparr>imgRows = 6, imgCols = 2, imgData = (\<lambda>r c. 0)\<rparr> [(0, 0), (0, 1), (0, 2), (0, 3), (0, 4), (0, 5)] = Inr 31"
  by (simp add: decodeMarker_def cycleJumpOf_div pyRange_def rangeUp.simps tempIndexOf_def
      pyInt_def intensityAt_def getitem_def npIndex_def grayAt_def slotBit_def
      identifierOfBits_def pyIntBase2_def)

text \<open>
  Claim C9.  With floats read as reals, the offset of identifier \<open>n\<close> is
  \<open>(cos a * 70, sin a * 70)\<close> for the angle \<open>a\<close> of \<open>-15 * n\<close> degrees; identifier \<open>0\<close>
  gives \<open>(70, 0)\<close>, and so does \<open>24\<close> (a full turn).  Every emitted row carries the
  offset of its own identifier.
\<close>

theorem reference_offset_degrees:
  "referenceOffset n =
     (cos (radians (- 15 * real_of_int n)) * 70, sin (radians (- 15 * real_of_int n)) * 70) \<and>
   referenceOffset 0 = (70, 0) \<and>
   referenceOffset 24 = (70, 0) \<and>
   (readMarker gray currentFrame corner middle = Inr row \<longrightarrow>
      (rowOffsetX row, rowOffsetY row) = referenceOffset (rowIdentifier row))"
proof -
  have a: "referenceOffset n =
     (cos (radians (- 15 * real_of_int n)) * 70, sin (radians (- 15 * real_of_int n)) * 70)"
    by (simp add: referenceOffset_def radians_def Let_def)
  have b: "referenceOffset 0 = (70, 0)"
    by (simp add: referenceOffset_def)
  have h: "radians (- 15) * real_of_int 24 = - (2 * pi)"
    by (simp add: radians_def)
  have c: "referenceOffset 24 = (70, 0)"
    unfolding referenceOffset_def Let_def h by simp
  have d: "(rowOffsetX row, rowOffsetY row) = referenceOffset (rowIdentifier row)"
    if "readMarker gray currentFrame corner middle = Inr row"
  proof -
    obtain axis where ax: "bresenhamLineGenerator (fst corner) (snd corner) (fst middle) (snd middle) = Inr axis"
      using bresenham_returns by blast
    from that obtain ident where i: "decodeMarker gray axis = Inr ident"
      unfolding readMarker_def ax by (cases "decodeMarker gray axis") simp_all
    from that obtain anchor where an: "getitem axis 0 = Inr anchor"
      unfolding readMarker_def ax by (cases "getitem axis 0") (simp_all add: i)
    from that show ?thesis
      unfolding readMarker_def ax by (auto simp add: i an)
  qed
  from a b c d show ?thesis by blast
qed

theorem reference_offset_degrees_witness:
  "readMarker \<lparr>imgRows = 6, imgCols = 2, imgData = (\<lambda>r c. 0)\<rparr> 7 (0, 0) (0, 5) =
     Inr \<lparr>rowFrame = 7, rowIdentifier = 31, rowAnchorX = 0, rowAnchorY = 0,
          rowOffsetX = cos (radians (- 15 * 31)) * 70, rowOffsetY = sin (radians (- 15 * 31)) * 70,
          rowReserved = 0\<rparr>"
  using reference_offset_degrees [of 31]
  by (simp add: readMarker_def six_point_axis six_point_decode getitem_def npIndex_def)

section \<open>The ring decoder: the claims\<close>

lemma ten_point_centres:
  "pyRange (cycleJumpOf 10) 10 (cycleJumpOf 10) = Inr [1, 2, 3, 4, 5, 6, 7, 8, 9]"
  by (simp add: cycleJumpOf_div pyRange_def rangeUp.simps)

lemma ten_point_decode:
  "decodeMarker \<lparr>imgRows = 10, imgCols = 2, imgData = (\<lambda>r c. if r = 5 then 255 else 0)\<rparr>
     [(0, 0), (0, 1), (0, 2), (0, 3), (0, 4), (0, 5), (0, 6), (0, 7), (0, 8), (0, 9)] = Inr 511"
  by (simp add: decodeMarker_def ten_point_centres tempIndexOf_def
      pyInt_def intensityAt_def getitem_def npIndex_def grayAt_def slotBit_def
      identifierOfBits_def pyIntBase2_def)



text \<open>
  Claim C5.  Decoding reads the intensities at the corrected sample indices in sampling
  order, turns each into one character, \<^verbatim>\<open>0\<close> exactly when the intensity exceeds 180 and
  \<^verbatim>\<open>1\<close> otherwise, and interprets the reversed string in base two; the string
  \<^verbatim>\<open>1010000000\<close> stands for identifier 5.
\<close>

theorem ring_bits_reversed_once:
  "decodeMarker gray markerAxis =
     bindE (pyRange (cycleJumpOf (int (length markerAxis))) (int (length markerAxis))
              (cycleJumpOf (int (length markerAxis)))) (\<lambda>centres.
     bindE (collectE (map (\<lambda>(j, c). intensityAt gray markerAxis (tempIndexOf j c))
                        (zip [0..<length centres] centres))) (\<lambda>vs.
       pyIntBase2 (rev (concat (map slotBit vs))))) \<and>
   (slotBit v = ''0'') = (180 < v) \<and> (slotBit v = ''1'') = (v \<le> 180) \<and>
   identifierOfBits ''1010000000'' = Inr 5"
proof -
  have "(slotBit v = ''0'') = (180 < v)" "(slotBit v = ''1'') = (v \<le> 180)"
    by (auto simp add: slotBit_def)
  moreover have "identifierOfBits ''1010000000'' = Inr 5"
    by (simp add: identifierOfBits_def pyIntBase2_def)
  ultimately show ?thesis
    using decodeMarker_collect [of gray markerAxis] by (simp add: identifierOfBits_def)
qed

lemma six_point_bright_decode:
  "decodeMarker \<lparr>imgRows = 6, imgCols = 2, imgData = (\<lambda>r c. if r = 2 \<or> r = 4 then 200 else 100)\<rparr>
     [(0, 0), (0, 1), (0, 2), (0, 3), (0, 4), (0, 5)] = Inr 11"
  by (simp add: decodeMarker_def cycleJumpOf_div pyRange_def rangeUp.simps tempIndexOf_def
      pyInt_def intensityAt_def getitem_def npIndex_def grayAt_def slotBit_def
      identifierOfBits_def pyIntBase2_def)

theorem ring_bits_reversed_once_witness:
  "decodeMarker \<lparr>imgRows = 6, imgCols = 2, imgData = (\<lambda>r c. if r = 2 \<or> r = 4 then 200 else 100)\<rparr>
     [(0, 0), (0, 1), (0, 2), (0, 3), (0, 4), (0, 5)] = Inr 11 \<and>
   pyIntBase2 (rev ''11010'') = Inr 11 \<and>
   (slotBit 200 = ''0'') = (180 < (200 :: nat)) \<and>
   identifierOfBits ''1010000000'' = Inr 5"
proof -
  have "(slotBit 200 = ''0'') = (180 < (200 :: nat)) \<and> identifierOfBits ''1010000000'' = Inr 5"
    using ring_bits_reversed_once
      [of "\<lparr>imgRows = 6, imgCols = 2, imgData = (\<lambda>r c. if r = 2 \<or> r = 4 then 200 else 100)\<rparr>"
        "[(0, 0), (0, 1), (0, 2), (0, 3), (0, 4), (0, 5)]" 200]
    by blast
  moreover have "pyIntBase2 (rev ''11010'') = Inr 11"
    by (simp add: pyIntBase2_def)
  ultimately show ?thesis
    using six_point_bright_decode by blast
qed

text \<open>
  Claim C6, as stated, fails: the block scales only while \<^verbatim>\<open>actCycle\<close> is at most 4.  An
  axis of ten points is sampled nine times; the sixth sample has centre 6 and is read at
  index 6, not at \<open>int (6 * 0.85) = 5\<close>.  On a frame that is bright only at axis
  index 5 all nine samples are dark (identifier 511), although index 5 is bright.
\<close>

theorem sixth_sample_unscaled:
  "pyRange (cycleJumpOf 10) 10 (cycleJumpOf 10) = Inr [1, 2, 3, 4, 5, 6, 7, 8, 9] \<and>
   tempIndexOf 5 6 = 6 \<and> pyInt (real_of_int 6 * 0.85) = 5 \<and>
   decodeMarker \<lparr>imgRows = 10, imgCols = 2, imgData = (\<lambda>r c. if r = 5 then 255 else 0)\<rparr>
     [(0, 0), (0, 1), (0, 2), (0, 3), (0, 4), (0, 5), (0, 6), (0, 7), (0, 8), (0, 9)] = Inr 511 \<and>
   intensityAt \<lparr>imgRows = 10, imgCols = 2, imgData = (\<lambda>r c. if r = 5 then 255 else 0)\<rparr>
     [(0, 0), (0, 1), (0, 2), (0, 3), (0, 4), (0, 5), (0, 6), (0, 7), (0, 8), (0, 9)]
     (pyInt (real_of_int 6 * 0.85)) = Inr 255"
  by (simp add: ten_point_centres ten_point_decode tempIndexOf_def pyInt_def
      intensityAt_def getitem_def npIndex_def grayAt_def)

text \<open>
  Claim C6, amended.  The index read for a sample is its centre scaled by 0.9 and
  truncated for the first sample, scaled by 0.85 and truncated for the second to the
  fifth, and the centre itself for any later sample.  From 26 axis points on there are
  exactly five samples, so every sample after the first is scaled by 0.85.
\<close>

theorem sample_index_scaling:
  "sampleLoop gray markerAxis centres 0 [] =
     bindE (collectE (map (\<lambda>(k, c). intensityAt gray markerAxis
                             (if k = 0 then pyInt (real_of_int c * 0.9)
                              else if k \<le> 4 then pyInt (real_of_int c * 0.85)
                              else c))
                        (zip [0..<length centres] centres)))
       (\<lambda>vs. Inr (concat (map slotBit vs))) \<and>
   (26 \<le> length markerAxis \<longrightarrow>
      (\<exists>cs. pyRange (cycleJumpOf (int (length markerAxis))) (int (length markerAxis))
               (cycleJumpOf (int (length markerAxis))) = Inr cs \<and> length cs = 5))"
proof -
  have a: "sampleLoop gray markerAxis centres 0 [] =
     bindE (collectE (map (\<lambda>(k, c). intensityAt gray markerAxis
                             (if k = 0 then pyInt (real_of_int c * 0.9)
                              else if k \<le> 4 then pyInt (real_of_int c * 0.85)
                              else c))
                        (zip [0..<length centres] centres)))
       (\<lambda>vs. Inr (concat (map slotBit vs)))"
    using sampleLoop_collect [of gray markerAxis centres 0 "[]"]
    by (simp only: tempIndexOf_cases add_0 append_Nil)
  have b: "\<exists>cs. pyRange (cycleJumpOf (int (length markerAxis))) (int (length markerAxis))
               (cycleJumpOf (int (length markerAxis))) = Inr cs \<and> length cs = 5"
    if l: "26 \<le> length markerAxis"
  proof -
    have "6 \<le> int (length markerAxis)" "26 \<le> int (length markerAxis)" using l by simp_all
    with sample_count [of "int (length markerAxis)"] show ?thesis by auto
  qed
  from a b show ?thesis by blast
qed

theorem sample_index_scaling_witness:
  "26 \<le> length (map (\<lambda>i. (0, int i)) [0..<26]) \<and>
   (\<exists>cs. pyRange (cycleJumpOf 26) 26 (cycleJumpOf 26) = Inr cs \<and> length cs = 5)"
  using sample_index_scaling [of _ "map (\<lambda>i. (0, int i)) [0..<26]"]
  by simp

section \<open>A frame with one marker\<close>

text \<open>
  The whole pipeline on a notched pentagon: corner \<open>(1340, 130)\<close>, base midpoint
  \<open>(1340, 300)\<close>, a vertical axis of 171 points, five samples at the axis indices 29, 56,
  84, 112 and 140.  The frame is bright on the rows of the first and the third sample, so
  the sampled string is \<^verbatim>\<open>01011\<close> and the identifier is 26.
\<close>

lemma notched_corner:
  "resolveCorner [(1300, 100), (1340, 130), (1380, 100), (1370, 300), (1310, 300)]
     = Inr (Some ((1340, 130), (1340, 300)))"
  by (simp add: resolveCorner_def notched_sides upt_conv_Cons cornerOfPair_def
      lowerSideMiddle_def getitem_def npIndex_def wrap32_id)

lemma notched_axis:
  "bresenhamLineGenerator 1340 130 1340 300 = Inr (map (\<lambda>i. (1340, 130 + int i)) [0..<171])"
  unfolding bresenham_closed_form by (simp add: minorSteps_def eval_nat_numeral del: upt_Suc)

lemma notched_centres: "pyRange (cycleJumpOf 171) 171 (cycleJumpOf 171) = Inr [33, 66, 99, 132, 165]"
  by (simp add: cycleJumpOf_div pyRange_def rangeUp.simps)

lemma notched_decode:
  "decodeMarker \<lparr>imgRows = 1080, imgCols = 1920,
        imgData = (\<lambda>r c. if r = 159 \<or> r = 214 then 255 else 0)\<rparr>
     (map (\<lambda>i. (1340, 130 + int i)) [0..<171]) = Inr 26"
  unfolding decodeMarker_def Let_def
  by (simp add: notched_centres tempIndexOf_def
      pyInt_def intensityAt_def getitem_def npIndex_def grayAt_def slotBit_def
      identifierOfBits_def pyIntBase2_def del: upt_Suc)

lemma notched_frame:
  "detectAndLabelMarkers
     \<lparr>imgRows = 1080, imgCols = 1920, imgData = (\<lambda>r c. if r = 159 \<or> r = 214 then 255 else 0)\<rparr>
     7 [[(1300, 100), (1340, 130), (1380, 100), (1370, 300), (1310, 300)]] =
   Inr [\<lparr>rowFrame = 7, rowIdentifier = 26, rowAnchorX = 1340, rowAnchorY = 130,
         rowOffsetX = fst (referenceOffset 26), rowOffsetY = snd (referenceOffset 26),
         rowReserved = 0\<rparr>]"
  using notched_decode
  by (simp add: detectAndLabelMarkers_def processPolygon_def notched_corner readMarker_def
      notched_axis getitem_def npIndex_def del: upt_Suc)

end
